theory Spec2Isabelle
  imports Main "HOL-Library.AList"
begin

section \<open>Historical sync service (packages/core/src/sync-historical/service.ts)\<close>

text \<open>
  Block numbers, priorities and offsets are JavaScript numbers holding integers; they are
  modelled as \<open>int\<close>. The only non-integer values the service computes are \<open>Infinity\<close>
  (\<open>Math.min()\<close> of no arguments, in \<open>enqueueBlockTasks\<close>) and \<open>NaN\<close> (\<open>x % 0\<close>, in
  \<open>blockFilterTaskWorker\<close>); both are written out where they arise.
\<close>

subsection \<open>The BLOCK_FILTER worker: required blocks\<close>

text \<open>
  JavaScript's \<open>%\<close> on integers with a non-zero divisor: the remainder of the truncating
  division, which takes the sign of the dividend.
\<close>

definition js_rem :: "int \<Rightarrow> int \<Rightarrow> int" where
  "js_rem a b = sgn a * (\<bar>a\<bar> mod \<bar>b\<bar>)"

text \<open>
  The loop
  \<^verbatim>\<open>for (let blockNumber = start; blockNumber <= toBlock; blockNumber += interval)
    requiredBlocks.push(blockNumber);\<close>
  It never exits when it is entered with a step that is not positive: that is \<open>None\<close>.
\<close>

function enumerate_blocks :: "int \<Rightarrow> int \<Rightarrow> int \<Rightarrow> int list option" where
  "enumerate_blocks blockNumber toBlock interval =
     (if blockNumber \<le> toBlock then
        (if interval \<le> 0 then None
         else map_option (Cons blockNumber)
                (enumerate_blocks (blockNumber + interval) toBlock interval))
      else Some [])"
  by pat_completeness auto
termination
  by (relation "measure (\<lambda>(b, t, i). nat (t - b + 1))") auto

declare enumerate_blocks.simps [simp del]

text \<open>
  The first part of \<open>blockFilterTaskWorker\<close>, up to the list \<open>requiredBlocks\<close>. With
  \<open>interval = 0\<close> the remainder is \<open>NaN\<close>, so is the loop variable, the loop body never
  runs and only \<open>toBlock\<close> is pushed.
\<close>

definition blockFilter_requiredBlocks :: "int \<Rightarrow> int \<Rightarrow> int \<Rightarrow> int \<Rightarrow> int list option" where
  "blockFilter_requiredBlocks interval offset fromBlock toBlock =
     (if interval = 0 then Some [toBlock]
      else
        let baseOffset = js_rem (fromBlock - offset) interval;
            offset' = (if baseOffset = 0 then 0 else interval - baseOffset)
        in case enumerate_blocks (fromBlock + offset') toBlock interval of
             None \<Rightarrow> None
           | Some requiredBlocks \<Rightarrow>
               Some (if toBlock \<in> set requiredBlocks then requiredBlocks
                     else requiredBlocks @ [toBlock]))"

text \<open>What the block filter matches: \<open>(n - offset) mod interval = 0\<close>.\<close>

definition block_matches :: "int \<Rightarrow> int \<Rightarrow> int \<Rightarrow> bool" where
  "block_matches interval offset n \<longleftrightarrow> (n - offset) mod interval = 0"

subsection \<open>Numbers that may be \<open>Infinity\<close>\<close>

datatype number = Num int | PosInfinity

text \<open>\<open>Math.min(...xs)\<close>: \<open>Infinity\<close> when there is no argument.\<close>

fun Math_min :: "int list \<Rightarrow> number" where
  "Math_min [] = PosInfinity"
| "Math_min (x # xs) = Num (fold min xs x)"

text \<open>The comparisons \<open>a > b\<close> and \<open>n <= b\<close> of JavaScript, on these values.\<close>

fun number_gt :: "number \<Rightarrow> number \<Rightarrow> bool" where
  "number_gt (Num a) (Num b) = (b < a)"
| "number_gt PosInfinity (Num b) = True"
| "number_gt a PosInfinity = False"

fun number_le :: "int \<Rightarrow> number \<Rightarrow> bool" where
  "number_le n (Num b) = (n \<le> b)"
| "number_le n PosInfinity = True"

text \<open>\<open>Number.MAX_SAFE_INTEGER\<close>\<close>

definition MAX_SAFE_INTEGER :: int where
  "MAX_SAFE_INTEGER = 9007199254740991"

subsection \<open>Interval algebra (utils/interval.js)\<close>

type_synonym interval = "int \<times> int"

text \<open>
  Modelled from the spec: the functions of utils/interval.js that the service imports
  (\<open>intervalDifference\<close>, \<open>intervalIntersection\<close>, \<open>intervalSum\<close>, \<open>getChunks\<close>, and the
  union that the trackers use). Spec 3: an interval is a closed integer pair, and a set of
  intervals is "stored as the canonical sorted, disjoint, maximally-merged form"; spec
  4.1: "union(A,B), difference(A,B), intersection(A,B): standard set operations, output
  canonical". The model computes each result from the blocks the arguments cover.
\<close>

text \<open>Modelled from the spec: the blocks of a list of closed intervals.\<close>

definition interval_blocks :: "interval list \<Rightarrow> int list" where
  "interval_blocks A = concat (map (\<lambda>(a, b). [a..b]) A)"

text \<open>Modelled from the spec: the set of blocks that a list of closed intervals covers.\<close>

definition covered :: "interval list \<Rightarrow> int set" where
  "covered A = (\<Union>(a, b) \<in> set A. {a..b})"

text \<open>
  Modelled from the spec: the canonical form of a set of blocks (spec 3: "sorted, disjoint,
  maximally-merged"), that is its maximal runs of consecutive numbers in ascending order.
  \<open>runs\<close> expects an ascending list without repetition.
\<close>

fun runs :: "int list \<Rightarrow> interval list" where
  "runs [] = []"
| "runs (x # xs) =
     (case runs xs of
        [] \<Rightarrow> [(x, x)]
      | (a, b) # rest \<Rightarrow> if a = x + 1 then (x, b) # rest else (x, x) # (a, b) # rest)"

text \<open>Modelled from the spec: the canonical interval set of the blocks in a list.\<close>

definition canonical :: "int list \<Rightarrow> interval list" where
  "canonical xs = runs (sort (remdups xs))"

text \<open>Modelled from the spec: \<open>intervalUnion\<close> of utils/interval.js; spec 4.1 "union(A,B)".\<close>

definition intervalUnion :: "interval list \<Rightarrow> interval list \<Rightarrow> interval list" where
  "intervalUnion A B = canonical (interval_blocks A @ interval_blocks B)"

text \<open>
  Modelled from the spec: \<open>intervalDifference\<close> of utils/interval.js; spec 4.1
  "difference(A,B)".
\<close>

definition intervalDifference :: "interval list \<Rightarrow> interval list \<Rightarrow> interval list" where
  "intervalDifference A B =
     canonical (filter (\<lambda>n. n \<notin> set (interval_blocks B)) (interval_blocks A))"

text \<open>
  Modelled from the spec: \<open>intervalIntersection\<close> of utils/interval.js; spec 4.1
  "intersection(A,B)".
\<close>

definition intervalIntersection :: "interval list \<Rightarrow> interval list \<Rightarrow> interval list" where
  "intervalIntersection A B =
     canonical (filter (\<lambda>n. n \<in> set (interval_blocks B)) (interval_blocks A))"

text \<open>
  Modelled from the spec: \<open>intervalSum\<close> of utils/interval.js; spec 4.1 "sum(A)": the sum
  of \<open>b - a + 1\<close>.
\<close>

definition intervalSum :: "interval list \<Rightarrow> int" where
  "intervalSum A = sum_list (map (\<lambda>(a, b). b - a + 1) A)"

text \<open>
  Modelled from the spec: the chunks of one interval, for \<open>getChunks\<close>; spec 4.1 "for each
  interval, split into consecutive sub-intervals of length at most maxChunkSize". The
  spec says nothing of a chunk size below 1; the model gives no chunk then.
\<close>

function chunk_interval :: "int \<Rightarrow> int \<Rightarrow> int \<Rightarrow> interval list" where
  "chunk_interval fromBlock endBlock maxChunkSize =
     (if fromBlock \<le> endBlock \<and> 0 < maxChunkSize then
        (let toBlock = min (fromBlock + maxChunkSize - 1) endBlock
         in (fromBlock, toBlock) # chunk_interval (toBlock + 1) endBlock maxChunkSize)
      else [])"
  by pat_completeness auto
termination
  by (relation "measure (\<lambda>(f, e, m). nat (e - f + 1))") (auto simp: Let_def)

declare chunk_interval.simps [simp del]

text \<open>
  Modelled from the spec: \<open>getChunks\<close> of utils/interval.js; spec 4.1
  "chunks(intervals, maxChunkSize) ... Preserves order."
\<close>

definition getChunks :: "interval list \<Rightarrow> int \<Rightarrow> interval list" where
  "getChunks intervals maxChunkSize =
     concat (map (\<lambda>(a, b). chunk_interval a b maxChunkSize) intervals)"

subsection \<open>Progress trackers (utils/interval.js)\<close>

text \<open>
  Modelled from the spec: the class \<open>ProgressTracker\<close> of utils/interval.js. Spec 3 and
  4.2: a target interval and the set of completed intervals; "getRequired() =
  difference(target, completed)"; "getCheckpoint() = target.start - 1 if no completed
  interval contains target.start, else the upper bound of the interval starting at
  target.start"; "addCompletedInterval([a,b]): merges [a,b] into completed; returns
  {isUpdated, prevCheckpoint, newCheckpoint} where isUpdated := newCheckpoint >
  prevCheckpoint".
\<close>

record ProgressTracker =
  target :: interval
  completed :: "interval list"

text \<open>
  Modelled from the spec: \<open>ProgressTracker.getRequired\<close>; spec 3 "getRequired() =
  difference(target, completed)".
\<close>

definition getRequired :: "ProgressTracker \<Rightarrow> interval list" where
  "getRequired t = intervalDifference [target t] (completed t)"

text \<open>
  Modelled from the spec: \<open>ProgressTracker.getCheckpoint\<close>; spec 3 "target.start - 1 if no
  completed interval contains target.start, else the upper bound of the interval".
\<close>

definition getCheckpoint :: "ProgressTracker \<Rightarrow> int" where
  "getCheckpoint t =
     (case find (\<lambda>(a, b). a \<le> fst (target t) \<and> fst (target t) \<le> b) (completed t) of
        None \<Rightarrow> fst (target t) - 1
      | Some (a, b) \<Rightarrow> b)"

text \<open>
  Modelled from the spec: what \<open>addCompletedInterval\<close> returns; spec 4.2
  "{isUpdated, prevCheckpoint, newCheckpoint}".
\<close>

record completion_update =
  isUpdated :: bool
  prevCheckpoint :: int
  newCheckpoint :: int

text \<open>
  Modelled from the spec: \<open>ProgressTracker.addCompletedInterval\<close>; spec 4.2 "merges [a,b]
  into completed", "isUpdated := newCheckpoint > prevCheckpoint".
\<close>

definition addCompletedInterval ::
  "ProgressTracker \<Rightarrow> interval \<Rightarrow> ProgressTracker \<times> completion_update" where
  "addCompletedInterval t i =
     (let prev = getCheckpoint t;
          t' = t\<lparr>completed := intervalUnion (completed t) [i]\<rparr>;
          new = getCheckpoint t'
      in (t', \<lparr>isUpdated = prev < new, prevCheckpoint = prev, newCheckpoint = new\<rparr>))"

text \<open>
  Modelled from the spec: the class \<open>BlockProgressTracker\<close> of utils/interval.js. Spec
  4.3: "addPendingBlocks({blockNumbers}): appends to the pending sequence (must be strictly
  greater than any existing pending block)"; "addCompletedBlock: records completion". The
  requirement on the argument is the predicate \<open>addPendingBlocks_pre\<close>; the frontier that
  \<open>addCompletedBlock\<close> reports only feeds the debounced checkpoint event, which is not
  part of this model.
\<close>

record BlockProgressTracker =
  pendingBlocks :: "int list"
  completedBlocks :: "int list"

text \<open>
  Modelled from the spec: \<open>BlockProgressTracker.addPendingBlocks\<close>; spec 4.3 "appends to
  the pending sequence".
\<close>

definition addPendingBlocks :: "BlockProgressTracker \<Rightarrow> int list \<Rightarrow> BlockProgressTracker" where
  "addPendingBlocks t blockNumbers = t\<lparr>pendingBlocks := pendingBlocks t @ blockNumbers\<rparr>"

text \<open>
  Modelled from the spec: what \<open>addPendingBlocks\<close> requires of its argument; spec 4.3 "must
  be strictly greater than any existing pending block", spec 3 "pending blocks form a
  sorted ascending sequence".
\<close>

definition addPendingBlocks_pre :: "BlockProgressTracker \<Rightarrow> int list \<Rightarrow> bool" where
  "addPendingBlocks_pre t blockNumbers \<longleftrightarrow>
     sorted_wrt (<) blockNumbers \<and>
     list_all (\<lambda>n. list_all (\<lambda>p. p < n) (pendingBlocks t)) blockNumbers"

text \<open>
  Modelled from the spec: \<open>BlockProgressTracker.addCompletedBlock\<close>; spec 4.3 "records
  completion".
\<close>

definition addCompletedBlock :: "BlockProgressTracker \<Rightarrow> int \<Rightarrow> BlockProgressTracker" where
  "addCompletedBlock t blockNumber = t\<lparr>completedBlocks := completedBlocks t @ [blockNumber]\<rparr>"

subsection \<open>Sources, logs, callbacks and tasks\<close>

text \<open>
  The union \<open>EventSource\<close>: its tag \<open>type\<close> ("log", "factory", "block", "function") is the
  constructor of the criteria. Addresses, topics and hashes are strings.
\<close>

datatype criteria =
    LogFilterCriteria "string list" "string list" bool
      \<comment> \<open>address, topics, includeTransactionReceipts\<close>
  | FactoryCriteria string string string "string list" bool
      \<comment> \<open>address, eventSelector, childAddressLocation, topics, includeTransactionReceipts\<close>
  | BlockFilterCriteria int int
      \<comment> \<open>interval, offset\<close>
  | TraceFilterCriteria "string list" "string list" bool
      \<comment> \<open>fromAddress, toAddress, includeTransactionReceipts\<close>

record source =
  source_id :: string
  source_startBlock :: int
  source_endBlock :: "int option"
  maxBlockRange :: "int option"
  criteria :: criteria

record rpc_log =
  log_blockNumber :: int
  log_transactionHash :: string
  log_index :: int

text \<open>An element of the list \<open>requiredIntervals\<close> that \<open>buildLogIntervals\<close> returns.\<close>

record log_interval =
  li_startBlock :: int
  li_endBlock :: int
  li_logs :: "rpc_log list"
  li_transactionHashes :: "string set"

text \<open>
  The closures pushed on \<open>blockCallbacks\<close>, one constructor for each place that creates
  one, holding what the closure captures.
\<close>

datatype callback =
    LogFilterCallback source log_interval
  | FactoryLogFilterCallback source log_interval
  | FactoryChildAddressCallback source log_interval
  | BlockFilterCallback source int int

datatype task =
    LOG_FILTER source int int
  | FACTORY_CHILD_ADDRESS source int int
  | FACTORY_LOG_FILTER source int int
  | BLOCK_FILTER source int int
  | TRACE_FILTER source int int
  | BLOCK int "callback list"

subsection \<open>The task queue (utils/queue.js)\<close>

text \<open>
  Modelled from the spec: the queue that \<open>createQueue\<close> of utils/queue.js builds. Spec
  4.4: "addTask(task, {priority}): inserts with the given priority. Highest priority runs
  first; ties FIFO"; "clear()"; "On worker exception: onError({error, task, queue}) is
  invoked; the task is NOT automatically retried". \<open>queued\<close> holds the waiting tasks in
  the order they were added, \<open>addTask_calls\<close> every call of \<open>addTask\<close> so far.
\<close>

record queue =
  queued :: "(task \<times> int) list"
  addTask_calls :: "(task \<times> int) list"

text \<open>Modelled from the spec: \<open>queue.addTask\<close>; spec 4.4 "inserts with the given priority".\<close>

definition addTask :: "task \<Rightarrow> int \<Rightarrow> queue \<Rightarrow> queue" where
  "addTask t priority q =
     q\<lparr>queued := queued q @ [(t, priority)], addTask_calls := addTask_calls q @ [(t, priority)]\<rparr>"

text \<open>Modelled from the spec: \<open>queue.clear\<close>; spec 4.4 and 4.5.6 "pause+clear the queue".\<close>

definition clear :: "queue \<Rightarrow> queue" where
  "clear q = q\<lparr>queued := []\<rparr>"

text \<open>
  Modelled from the spec: the position of the task that the queue runs next; spec 4.4
  "Highest priority runs first; ties FIFO".
\<close>

fun next_position :: "(task \<times> int) list \<Rightarrow> nat option" where
  "next_position [] = None"
| "next_position ((t, p) # ts) =
     (case next_position ts of
        None \<Rightarrow> Some 0
      | Some i \<Rightarrow> if snd (ts ! i) > p then Some (Suc i) else Some 0)"

subsection \<open>The sync store\<close>

text \<open>
  The store is outside the service. What it answers at setup is an argument of the
  model; what the service inserts into it is recorded.
\<close>

record store_intervals =
  getLogFilterIntervals :: "criteria \<Rightarrow> interval list"
  getFactoryLogFilterIntervals :: "criteria \<Rightarrow> interval list"
  getBlockFilterIntervals :: "criteria \<Rightarrow> interval list"
  getTraceFilterIntervals :: "criteria \<Rightarrow> interval list"

datatype store_insert =
    insertLogFilterInterval criteria interval "rpc_log list"
  | insertFactoryChildAddressLogs "rpc_log list"
  | insertFactoryLogFilterInterval criteria interval "rpc_log list"
  | insertBlockFilterInterval criteria interval bool
      \<comment> \<open>the flag: whether a fetched block is passed\<close>

subsection \<open>The state of the service\<close>

datatype log_entry = Warn_task_failed task | Debug_killed

record service =
  defaultMaxBlockRange :: int
  logFilterProgressTrackers :: "(string \<times> ProgressTracker) list"
  factoryChildAddressProgressTrackers :: "(string \<times> ProgressTracker) list"
  factoryLogFilterProgressTrackers :: "(string \<times> ProgressTracker) list"
  blockFilterProgressTrackers :: "(string \<times> ProgressTracker) list"
  traceFilterProgressTrackers :: "(string \<times> ProgressTracker) list"
  blockProgressTracker :: BlockProgressTracker
  blockCallbacks :: "(int \<times> callback list) list"
  blockTasksEnqueuedCheckpoint :: number
  task_queue :: queue
  isShuttingDown :: bool
  logger :: "log_entry list"
  syncStore_inserts :: "store_insert list"

text \<open>The service as its constructor leaves it, for a network's \<open>defaultMaxBlockRange\<close>.\<close>

definition new_service :: "int \<Rightarrow> service" where
  "new_service dmbr =
     \<lparr>defaultMaxBlockRange = dmbr,
      logFilterProgressTrackers = [],
      factoryChildAddressProgressTrackers = [],
      factoryLogFilterProgressTrackers = [],
      blockFilterProgressTrackers = [],
      traceFilterProgressTrackers = [],
      blockProgressTracker = \<lparr>pendingBlocks = [], completedBlocks = []\<rparr>,
      blockCallbacks = [],
      blockTasksEnqueuedCheckpoint = Num 0,
      task_queue = \<lparr>queued = [], addTask_calls = []\<rparr>,
      isShuttingDown = False,
      logger = [],
      syncStore_inserts = []\<rparr>"

definition enqueue :: "task \<Rightarrow> int \<Rightarrow> service \<Rightarrow> service" where
  "enqueue t priority st = st\<lparr>task_queue := addTask t priority (task_queue st)\<rparr>"

subsection \<open>\<open>blockCallbacks\<close>: an object with numeric keys\<close>

text \<open>
  \<open>Object.keys\<close> lists the keys that are array indices (integers from 0 to \<open>2^32 - 2\<close>) in
  ascending order, then the other keys in the order they were created.
\<close>

definition is_array_index :: "int \<Rightarrow> bool" where
  "is_array_index k \<longleftrightarrow> 0 \<le> k \<and> k < 4294967295"

definition Object_keys :: "(int \<times> 'v) list \<Rightarrow> int list" where
  "Object_keys obj =
     (let ks = remdups (map fst obj)
      in sort (filter is_array_index ks) @ filter (\<lambda>k. \<not> is_array_index k) ks)"

text \<open>
  \<^verbatim>\<open>if (this.blockCallbacks[n] === undefined) this.blockCallbacks[n] = [];
  this.blockCallbacks[n].push(callback);\<close>
\<close>

definition push_callback ::
  "int \<Rightarrow> callback \<Rightarrow> (int \<times> callback list) list \<Rightarrow> (int \<times> callback list) list" where
  "push_callback n cb obj =
     AList.update n (case map_of obj n of None \<Rightarrow> [cb] | Some cbs \<Rightarrow> cbs @ [cb]) obj"

subsection \<open>\<open>buildLogIntervals\<close>\<close>

text \<open>
  \<open>logsByBlockNumber[n]\<close> is the logs of block \<open>n\<close> in the order received,
  \<open>txHashesByBlockNumber[n]\<close> the set of their transaction hashes; the keys of both are the
  block numbers that carry a log, which \<open>.map(Number).sort((a, b) => a - b)\<close> puts in
  ascending order.
\<close>

definition logsByBlockNumber :: "rpc_log list \<Rightarrow> int \<Rightarrow> rpc_log list" where
  "logsByBlockNumber logs n = filter (\<lambda>l. log_blockNumber l = n) logs"

definition txHashesByBlockNumber :: "rpc_log list \<Rightarrow> int \<Rightarrow> string set" where
  "txHashesByBlockNumber logs n = set (map log_transactionHash (logsByBlockNumber logs n))"

fun requiredIntervals :: "int \<Rightarrow> int list \<Rightarrow> rpc_log list \<Rightarrow> log_interval list" where
  "requiredIntervals prev [] logs = []"
| "requiredIntervals prev (n # ns) logs =
     \<lparr>li_startBlock = prev, li_endBlock = n,
      li_logs = logsByBlockNumber logs n,
      li_transactionHashes = txHashesByBlockNumber logs n\<rparr>
     # requiredIntervals (n + 1) ns logs"

definition requiredBlocks :: "int \<Rightarrow> rpc_log list \<Rightarrow> int list" where
  "requiredBlocks toBlock logs =
     (let blocks = sort (remdups (map log_blockNumber logs))
      in if toBlock \<in> set blocks then blocks else blocks @ [toBlock])"

definition buildLogIntervals :: "int \<Rightarrow> int \<Rightarrow> rpc_log list \<Rightarrow> log_interval list" where
  "buildLogIntervals fromBlock toBlock logs =
     requiredIntervals fromBlock (requiredBlocks toBlock logs) logs"

subsection \<open>\<open>enqueueBlockTasks\<close>\<close>

text \<open>\<open>Object.values\<close> of the five tracker tables, concatenated.\<close>

definition progressTrackers :: "service \<Rightarrow> ProgressTracker list" where
  "progressTrackers st =
     map snd (logFilterProgressTrackers st) @
     map snd (factoryChildAddressProgressTrackers st) @
     map snd (factoryLogFilterProgressTrackers st) @
     map snd (blockFilterProgressTrackers st) @
     map snd (traceFilterProgressTrackers st)"

definition trackersWithRequiredWork :: "service \<Rightarrow> ProgressTracker list" where
  "trackersWithRequiredWork st = filter (\<lambda>i. getRequired i \<noteq> []) (progressTrackers st)"

definition blockTasksCanBeEnqueuedTo :: "service \<Rightarrow> number" where
  "blockTasksCanBeEnqueuedTo st = Math_min (map getCheckpoint (trackersWithRequiredWork st))"

definition newBlocks :: "service \<Rightarrow> int list" where
  "newBlocks st =
     filter (\<lambda>n. number_le n (blockTasksCanBeEnqueuedTo st)) (Object_keys (blockCallbacks st))"

text \<open>One turn of the loop over \<open>newBlocks\<close>: add the BLOCK task, delete the entry.\<close>

definition callbacks_at :: "(int \<times> callback list) list \<Rightarrow> int \<Rightarrow> callback list" where
  "callbacks_at obj n = (case map_of obj n of None \<Rightarrow> [] | Some cbs \<Rightarrow> cbs)"

definition enqueue_block_task :: "int \<Rightarrow> service \<Rightarrow> service" where
  "enqueue_block_task n st =
     (enqueue (BLOCK n (callbacks_at (blockCallbacks st) n)) (MAX_SAFE_INTEGER - n) st)
       \<lparr>blockCallbacks := AList.delete n (blockCallbacks st)\<rparr>"

definition enqueueBlockTasks :: "service \<Rightarrow> service" where
  "enqueueBlockTasks st =
     (if number_gt (blockTasksCanBeEnqueuedTo st) (blockTasksEnqueuedCheckpoint st) then
        (let st1 = st\<lparr>blockProgressTracker :=
                        addPendingBlocks (blockProgressTracker st) (newBlocks st)\<rparr>;
             st2 = fold enqueue_block_task (newBlocks st) st1
         in st2\<lparr>blockTasksEnqueuedCheckpoint := blockTasksCanBeEnqueuedTo st\<rparr>)
      else st)"

subsection \<open>\<open>setup\<close>\<close>

text \<open>
  Modelled from the spec: what \<open>validateHistoricalBlockRange\<close> returns,
  \<open>{isHistoricalSyncRequired, startBlock, endBlock}\<close>.
\<close>

record validated_range =
  isHistoricalSyncRequired :: bool
  valid_startBlock :: int
  valid_endBlock :: int

text \<open>
  Modelled from the spec: \<open>validateHistoricalBlockRange\<close> of
  sync-historical/validateHistoricalBlockRange.js. Spec 4.5.1: "A source is skippable (no
  historical work) if its effective start block is above the finalized block number";
  "Otherwise compute effectiveEnd = min(endBlock ?? infinity, finalizedBlockNumber)".
\<close>

definition validateHistoricalBlockRange ::
  "int \<Rightarrow> int option \<Rightarrow> int \<Rightarrow> int \<Rightarrow> validated_range" where
  "validateHistoricalBlockRange startBlock endBlock finalizedBlockNumber latestBlockNumber =
     \<lparr>isHistoricalSyncRequired = \<not> finalizedBlockNumber < startBlock,
      valid_startBlock = startBlock,
      valid_endBlock =
        (case endBlock of None \<Rightarrow> finalizedBlockNumber
         | Some e \<Rightarrow> min e finalizedBlockNumber)\<rparr>"

text \<open>
  \<^verbatim>\<open>for (const [fromBlock, toBlock] of chunks)
    this.queue.addTask({kind, source, fromBlock, toBlock},
                       {priority: Number.MAX_SAFE_INTEGER - fromBlock});\<close>
\<close>

definition add_tasks :: "(int \<Rightarrow> int \<Rightarrow> task) \<Rightarrow> interval list \<Rightarrow> service \<Rightarrow> service" where
  "add_tasks kind chunks st =
     fold (\<lambda>(fromBlock, toBlock). enqueue (kind fromBlock toBlock) (MAX_SAFE_INTEGER - fromBlock))
       chunks st"

text \<open>The tracker of a source whose start block is not finalized yet.\<close>

definition skipped_tracker :: "int \<Rightarrow> int \<Rightarrow> ProgressTracker" where
  "skipped_tracker startBlock finalizedBlockNumber =
     \<lparr>target = (startBlock, finalizedBlockNumber),
      completed = [(startBlock, finalizedBlockNumber)]\<rparr>"

text \<open>
  The log filter under which the child-address progress of a factory is stored:
  \<open>{address: criteria.address, topics: [criteria.eventSelector],
  includeTransactionReceipts: false}\<close>.
\<close>

fun childAddressCriteria :: "criteria \<Rightarrow> criteria" where
  "childAddressCriteria (FactoryCriteria address eventSelector location topics receipts) =
     LogFilterCriteria [address] [eventSelector] False"
| "childAddressCriteria c = c"

definition maxChunkSize :: "source \<Rightarrow> service \<Rightarrow> int" where
  "maxChunkSize src st =
     (case maxBlockRange src of None \<Rightarrow> defaultMaxBlockRange st | Some m \<Rightarrow> m)"

text \<open>
  The body of the callback that \<open>setup\<close> maps over the sources. Metrics and log lines are
  not part of the model.
\<close>

definition setup_source :: "store_intervals \<Rightarrow> int \<Rightarrow> int \<Rightarrow> source \<Rightarrow> service \<Rightarrow> service" where
  "setup_source store latestBlockNumber finalizedBlockNumber src st =
     (let v = validateHistoricalBlockRange (source_startBlock src) (source_endBlock src)
                finalizedBlockNumber latestBlockNumber;
          startBlock = valid_startBlock v;
          endBlock = valid_endBlock v;
          skipped = skipped_tracker startBlock finalizedBlockNumber
      in case criteria src of
        LogFilterCriteria a ts r \<Rightarrow>
          if \<not> isHistoricalSyncRequired v then
            st\<lparr>logFilterProgressTrackers :=
                 AList.update (source_id src) skipped (logFilterProgressTrackers st)\<rparr>
          else
            (let logFilterProgressTracker =
                   \<lparr>target = (startBlock, endBlock),
                    completed = getLogFilterIntervals store (criteria src)\<rparr>;
                 st1 = st\<lparr>logFilterProgressTrackers :=
                   AList.update (source_id src) logFilterProgressTracker
                     (logFilterProgressTrackers st)\<rparr>
             in add_tasks (LOG_FILTER src)
                  (getChunks (getRequired logFilterProgressTracker) (maxChunkSize src st)) st1)
      | FactoryCriteria a e l ts r \<Rightarrow>
          if \<not> isHistoricalSyncRequired v then
            st\<lparr>factoryChildAddressProgressTrackers :=
                 AList.update (source_id src) skipped (factoryChildAddressProgressTrackers st),
               factoryLogFilterProgressTrackers :=
                 AList.update (source_id src) skipped (factoryLogFilterProgressTrackers st)\<rparr>
          else
            (let factoryChildAddressProgressTracker =
                   \<lparr>target = (startBlock, endBlock),
                    completed = getLogFilterIntervals store (childAddressCriteria (criteria src))\<rparr>;
                 st1 = st\<lparr>factoryChildAddressProgressTrackers :=
                   AList.update (source_id src) factoryChildAddressProgressTracker
                     (factoryChildAddressProgressTrackers st)\<rparr>;
                 requiredFactoryChildAddressIntervals =
                   getRequired factoryChildAddressProgressTracker;
                 st2 = add_tasks (FACTORY_CHILD_ADDRESS src)
                   (getChunks requiredFactoryChildAddressIntervals (maxChunkSize src st)) st1;
                 factoryLogFilterProgressTracker =
                   \<lparr>target = (startBlock, endBlock),
                    completed = getFactoryLogFilterIntervals store (criteria src)\<rparr>;
                 st3 = st2\<lparr>factoryLogFilterProgressTrackers :=
                   AList.update (source_id src) factoryLogFilterProgressTracker
                     (factoryLogFilterProgressTrackers st2)\<rparr>;
                 requiredFactoryLogFilterIntervals = getRequired factoryLogFilterProgressTracker;
                 missingFactoryLogFilterIntervals =
                   intervalDifference requiredFactoryLogFilterIntervals
                     requiredFactoryChildAddressIntervals
             in add_tasks (FACTORY_LOG_FILTER src)
                  (getChunks missingFactoryLogFilterIntervals (maxChunkSize src st)) st3)
      | BlockFilterCriteria i off \<Rightarrow>
          if \<not> isHistoricalSyncRequired v then
            st\<lparr>blockFilterProgressTrackers :=
                 AList.update (source_id src) skipped (blockFilterProgressTrackers st)\<rparr>
          else
            (let blockFilterProgressTracker =
                   \<lparr>target = (startBlock, endBlock),
                    completed = getBlockFilterIntervals store (criteria src)\<rparr>;
                 st1 = st\<lparr>blockFilterProgressTrackers :=
                   AList.update (source_id src) blockFilterProgressTracker
                     (blockFilterProgressTrackers st)\<rparr>
             in add_tasks (BLOCK_FILTER src)
                  (getChunks (getRequired blockFilterProgressTracker) (defaultMaxBlockRange st))
                  st1)
      | TraceFilterCriteria fa ta r \<Rightarrow>
          if \<not> isHistoricalSyncRequired v then
            st\<lparr>traceFilterProgressTrackers :=
                 AList.update (source_id src) skipped (traceFilterProgressTrackers st)\<rparr>
          else
            (let traceFilterProgressTracker =
                   \<lparr>target = (startBlock, endBlock),
                    completed = getTraceFilterIntervals store (criteria src)\<rparr>;
                 st1 = st\<lparr>traceFilterProgressTrackers :=
                   AList.update (source_id src) traceFilterProgressTracker
                     (traceFilterProgressTrackers st)\<rparr>
             in add_tasks (TRACE_FILTER src)
                  (getChunks (getRequired traceFilterProgressTracker) (maxChunkSize src st)) st1))"

definition service_setup :: "store_intervals \<Rightarrow> int \<Rightarrow> int \<Rightarrow> source list \<Rightarrow> service \<Rightarrow> service" where
  "service_setup store latestBlockNumber finalizedBlockNumber sources st =
     fold (setup_source store latestBlockNumber finalizedBlockNumber) sources
       (st\<lparr>isShuttingDown := False, blockTasksEnqueuedCheckpoint := Num 0\<rparr>)"

subsection \<open>\<open>kill\<close> and the queue's \<open>onError\<close>\<close>

definition kill :: "service \<Rightarrow> service" where
  "kill st =
     st\<lparr>isShuttingDown := True,
        task_queue := clear (task_queue st),
        logger := logger st @ [Debug_killed]\<rparr>"

definition warn_and_retry :: "task \<Rightarrow> int \<Rightarrow> service \<Rightarrow> service" where
  "warn_and_retry t priority st =
     enqueue t priority (st\<lparr>logger := logger st @ [Warn_task_failed t]\<rparr>)"

definition onError :: "task \<Rightarrow> service \<Rightarrow> service" where
  "onError t st =
     (if isShuttingDown st then st
      else case t of
        LOG_FILTER src fromBlock toBlock \<Rightarrow>
          warn_and_retry t (MAX_SAFE_INTEGER - fromBlock) st
      | FACTORY_CHILD_ADDRESS src fromBlock toBlock \<Rightarrow>
          warn_and_retry t (MAX_SAFE_INTEGER - fromBlock) st
      | FACTORY_LOG_FILTER src fromBlock toBlock \<Rightarrow>
          warn_and_retry t (MAX_SAFE_INTEGER - fromBlock) st
      | BLOCK blockNumber callbacks \<Rightarrow>
          warn_and_retry t (MAX_SAFE_INTEGER - blockNumber) st
      | BLOCK_FILTER src fromBlock toBlock \<Rightarrow>
          warn_and_retry t (MAX_SAFE_INTEGER - fromBlock) st
      | TRACE_FILTER src fromBlock toBlock \<Rightarrow>
          warn_and_retry t (MAX_SAFE_INTEGER - fromBlock) st)"

subsection \<open>The workers\<close>

text \<open>
  What the network and the store answer while one task runs: the logs of
  \<open>eth_getLogs\<close> (\<open>None\<close> when the request throws; for a factory, the logs of all
  batches of child addresses together), \<open>syncStore.getBlock\<close>, whether
  \<open>eth_getBlockByNumber\<close> finds the block, and the position of the block callback that
  throws, if one does. A store call that throws inside a range worker is not modelled.
\<close>

record env =
  eth_getLogs :: "rpc_log list option"
  getBlock :: "int \<Rightarrow> bool"
  eth_getBlockByNumber :: bool
  throwing_callback :: "nat option"

text \<open>
  A worker returns, or throws leaving the state it reached, or never returns.
\<close>

datatype result = Completed service | Threw service | Diverges

definition register_callbacks ::
  "(log_interval \<Rightarrow> callback) \<Rightarrow> log_interval list \<Rightarrow> service \<Rightarrow> service" where
  "register_callbacks closure logIntervals st =
     st\<lparr>blockCallbacks :=
          fold (\<lambda>li. push_callback (li_endBlock li) (closure li)) logIntervals
            (blockCallbacks st)\<rparr>"

text \<open>
  \<open>this.logFilterProgressTrackers[id].addCompletedInterval(...)\<close> throws a TypeError when
  the table has no tracker for the source.
\<close>

definition logFilterTaskWorker :: "source \<Rightarrow> int \<Rightarrow> int \<Rightarrow> env \<Rightarrow> service \<Rightarrow> result" where
  "logFilterTaskWorker logFilter fromBlock toBlock e st =
     (case eth_getLogs e of
        None \<Rightarrow> Threw st
      | Some logs \<Rightarrow>
          (let st1 = register_callbacks (LogFilterCallback logFilter)
                       (buildLogIntervals fromBlock toBlock logs) st
           in case map_of (logFilterProgressTrackers st1) (source_id logFilter) of
                None \<Rightarrow> Threw st1
              | Some tracker \<Rightarrow>
                  Completed (enqueueBlockTasks
                    (st1\<lparr>logFilterProgressTrackers :=
                       AList.update (source_id logFilter)
                         (fst (addCompletedInterval tracker (fromBlock, toBlock)))
                         (logFilterProgressTrackers st1)\<rparr>))))"

definition factoryLogFilterTaskWorker :: "source \<Rightarrow> int \<Rightarrow> int \<Rightarrow> env \<Rightarrow> service \<Rightarrow> result" where
  "factoryLogFilterTaskWorker factory fromBlock toBlock e st =
     (case eth_getLogs e of
        None \<Rightarrow> Threw st
      | Some logs \<Rightarrow>
          (let st1 = register_callbacks (FactoryLogFilterCallback factory)
                       (buildLogIntervals fromBlock toBlock logs) st
           in case map_of (factoryLogFilterProgressTrackers st1) (source_id factory) of
                None \<Rightarrow> Threw st1
              | Some tracker \<Rightarrow>
                  Completed (enqueueBlockTasks
                    (st1\<lparr>factoryLogFilterProgressTrackers :=
                       AList.update (source_id factory)
                         (fst (addCompletedInterval tracker (fromBlock, toBlock)))
                         (factoryLogFilterProgressTrackers st1)\<rparr>))))"

definition factoryChildAddressTaskWorker ::
  "source \<Rightarrow> int \<Rightarrow> int \<Rightarrow> env \<Rightarrow> service \<Rightarrow> result" where
  "factoryChildAddressTaskWorker factory fromBlock toBlock e st =
     (case eth_getLogs e of
        None \<Rightarrow> Threw st
      | Some logs \<Rightarrow>
          (let st1 = st\<lparr>syncStore_inserts :=
                         syncStore_inserts st @ [insertFactoryChildAddressLogs logs]\<rparr>;
               st2 = register_callbacks (FactoryChildAddressCallback factory)
                       (buildLogIntervals fromBlock toBlock logs) st1
           in case map_of (factoryChildAddressProgressTrackers st2) (source_id factory) of
                None \<Rightarrow> Threw st2
              | Some tracker \<Rightarrow>
                  (let u = snd (addCompletedInterval tracker (fromBlock, toBlock));
                       st3 = st2\<lparr>factoryChildAddressProgressTrackers :=
                         AList.update (source_id factory)
                           (fst (addCompletedInterval tracker (fromBlock, toBlock)))
                           (factoryChildAddressProgressTrackers st2)\<rparr>
                   in if isUpdated u then
                        (case map_of (factoryLogFilterProgressTrackers st3) (source_id factory) of
                           None \<Rightarrow> Threw st3
                         | Some logTracker \<Rightarrow>
                             (let required = intervalIntersection
                                    [(prevCheckpoint u + 1, newCheckpoint u)]
                                    (getRequired logTracker);
                                  factoryLogFilterChunks =
                                    getChunks required (maxChunkSize factory st3)
                              in Completed
                                   (add_tasks (FACTORY_LOG_FILTER factory)
                                      factoryLogFilterChunks st3)))
                      else Completed st3)))"

text \<open>
  The loop of \<open>blockFilterTaskWorker\<close> over \<open>requiredBlocks\<close>: a block the store has gets
  its interval inserted at once, another one gets a callback.
\<close>

fun block_filter_intervals ::
  "source \<Rightarrow> (int \<Rightarrow> bool) \<Rightarrow> int \<Rightarrow> int list \<Rightarrow> service \<Rightarrow> service" where
  "block_filter_intervals blockFilter hasBlock prevBlockNumber [] st = st"
| "block_filter_intervals blockFilter hasBlock prevBlockNumber (n # ns) st =
     block_filter_intervals blockFilter hasBlock (n + 1) ns
       (if hasBlock n then
          st\<lparr>syncStore_inserts := syncStore_inserts st @
               [insertBlockFilterInterval (criteria blockFilter) (prevBlockNumber, n) False]\<rparr>
        else
          st\<lparr>blockCallbacks :=
               push_callback n (BlockFilterCallback blockFilter prevBlockNumber n)
                 (blockCallbacks st)\<rparr>)"

text \<open>
  Criteria that are not a block filter's have no \<open>interval\<close> and no \<open>offset\<close>: the
  arithmetic on \<open>undefined\<close> gives \<open>NaN\<close>, as \<open>interval = 0\<close> does.
\<close>

definition blockFilterTaskWorker :: "source \<Rightarrow> int \<Rightarrow> int \<Rightarrow> env \<Rightarrow> service \<Rightarrow> result" where
  "blockFilterTaskWorker blockFilter fromBlock toBlock e st =
     (case (case criteria blockFilter of
              BlockFilterCriteria i off \<Rightarrow> blockFilter_requiredBlocks i off fromBlock toBlock
            | _ \<Rightarrow> Some [toBlock]) of
        None \<Rightarrow> Diverges
      | Some blocks \<Rightarrow>
          (let st1 = block_filter_intervals blockFilter (getBlock e) fromBlock blocks st
           in case map_of (blockFilterProgressTrackers st1) (source_id blockFilter) of
                None \<Rightarrow> Threw st1
              | Some tracker \<Rightarrow>
                  Completed (enqueueBlockTasks
                    (st1\<lparr>blockFilterProgressTrackers :=
                       AList.update (source_id blockFilter)
                         (fst (addCompletedInterval tracker (fromBlock, toBlock)))
                         (blockFilterProgressTrackers st1)\<rparr>))))"

text \<open>What a block callback inserts into the sync store when it is called.\<close>

fun callback_insert :: "callback \<Rightarrow> store_insert" where
  "callback_insert (LogFilterCallback src li) =
     insertLogFilterInterval (criteria src) (li_startBlock li, li_endBlock li) (li_logs li)"
| "callback_insert (FactoryLogFilterCallback src li) =
     insertFactoryLogFilterInterval (criteria src) (li_startBlock li, li_endBlock li) (li_logs li)"
| "callback_insert (FactoryChildAddressCallback src li) =
     insertLogFilterInterval (childAddressCriteria (criteria src))
       (li_startBlock li, li_endBlock li) (li_logs li)"
| "callback_insert (BlockFilterCallback src startBlock endBlock) =
     insertBlockFilterInterval (criteria src) (startBlock, endBlock) True"

text \<open>
  \<^verbatim>\<open>for (const callback of callbacks) await callback(block);\<close>
  The callback at the throwing position throws before its insert is done; the inserts of
  the callbacks before it stay.
\<close>

fun run_callbacks :: "nat option \<Rightarrow> callback list \<Rightarrow> service \<Rightarrow> result" where
  "run_callbacks throwing [] st = Completed st"
| "run_callbacks throwing (cb # cbs) st =
     (if throwing = Some 0 then Threw st
      else run_callbacks (map_option (\<lambda>k. k - 1) throwing) cbs
             (st\<lparr>syncStore_inserts := syncStore_inserts st @ [callback_insert cb]\<rparr>))"

definition blockTaskWorker :: "int \<Rightarrow> callback list \<Rightarrow> env \<Rightarrow> service \<Rightarrow> result" where
  "blockTaskWorker blockNumber callbacks e st =
     (if \<not> eth_getBlockByNumber e then Threw st
      else case run_callbacks (throwing_callback e) callbacks st of
             Completed st1 \<Rightarrow>
               Completed (st1\<lparr>blockProgressTracker :=
                 addCompletedBlock (blockProgressTracker st1) blockNumber\<rparr>)
           | r \<Rightarrow> r)"

text \<open>The queue's worker: the switch on \<open>task.kind\<close>.\<close>

fun worker :: "task \<Rightarrow> env \<Rightarrow> service \<Rightarrow> result" where
  "worker (LOG_FILTER src fromBlock toBlock) e st = logFilterTaskWorker src fromBlock toBlock e st"
| "worker (FACTORY_CHILD_ADDRESS src fromBlock toBlock) e st =
     factoryChildAddressTaskWorker src fromBlock toBlock e st"
| "worker (FACTORY_LOG_FILTER src fromBlock toBlock) e st =
     factoryLogFilterTaskWorker src fromBlock toBlock e st"
| "worker (BLOCK_FILTER src fromBlock toBlock) e st =
     blockFilterTaskWorker src fromBlock toBlock e st"
| "worker (BLOCK blockNumber callbacks) e st = blockTaskWorker blockNumber callbacks e st"
| "worker (TRACE_FILTER src fromBlock toBlock) e st = Completed st"

subsection \<open>Runs\<close>

text \<open>
  The queue takes the waiting task at a position, runs the worker on it and calls
  \<open>onError\<close> when the worker throws. Any waiting task may be the next to finish when
  several are in flight; \<open>next_position\<close> is the one a queue of concurrency 1 takes. The
  events of the service (\<open>syncComplete\<close> after the last task, the debounced
  \<open>historicalCheckpoint\<close>), its metrics and its trace logs are not part of the model.
\<close>

definition run_task :: "nat \<Rightarrow> env \<Rightarrow> service \<Rightarrow> service option" where
  "run_task i e st =
     (let q = queued (task_queue st)
      in if i < length q then
           (let t = fst (q ! i);
                st1 = st\<lparr>task_queue := (task_queue st)\<lparr>queued := take i q @ drop (Suc i) q\<rparr>\<rparr>
            in case worker t e st1 of
                 Completed st2 \<Rightarrow> Some st2
               | Threw st2 \<Rightarrow> Some (onError t st2)
               | Diverges \<Rightarrow> None)
         else None)"

fun run :: "(nat \<times> env) list \<Rightarrow> service \<Rightarrow> service option" where
  "run [] st = Some st"
| "run ((i, e) # steps) st =
     (case run_task i e st of None \<Rightarrow> None | Some st1 \<Rightarrow> run steps st1)"

text \<open>The block numbers of the BLOCK tasks among the tasks given to \<open>addTask\<close>.\<close>

fun block_numbers :: "(task \<times> int) list \<Rightarrow> int list" where
  "block_numbers [] = []"
| "block_numbers ((BLOCK n cbs, p) # ts) = n # block_numbers ts"
| "block_numbers (t # ts) = block_numbers ts"

text \<open>The run of a queue of concurrency 1: every task that runs is the next in priority.\<close>

fun run_in_order :: "env list \<Rightarrow> service \<Rightarrow> service option" where
  "run_in_order [] st = Some st"
| "run_in_order (e # es) st =
     (case next_position (queued (task_queue st)) of
        None \<Rightarrow> None
      | Some i \<Rightarrow> (case run_task i e st of None \<Rightarrow> None | Some st1 \<Rightarrow> run_in_order es st1))"

text \<open>
  The priority a task is first added with: \<open>add_tasks\<close> gives a range task
  \<open>MAX_SAFE_INTEGER - fromBlock\<close>, \<open>enqueue_block_task\<close> gives a BLOCK task
  \<open>MAX_SAFE_INTEGER - blockNumber\<close>.
\<close>

fun original_priority :: "task \<Rightarrow> int" where
  "original_priority (BLOCK blockNumber callbacks) = MAX_SAFE_INTEGER - blockNumber"
| "original_priority (LOG_FILTER src fromBlock toBlock) = MAX_SAFE_INTEGER - fromBlock"
| "original_priority (FACTORY_CHILD_ADDRESS src fromBlock toBlock) = MAX_SAFE_INTEGER - fromBlock"
| "original_priority (FACTORY_LOG_FILTER src fromBlock toBlock) = MAX_SAFE_INTEGER - fromBlock"
| "original_priority (BLOCK_FILTER src fromBlock toBlock) = MAX_SAFE_INTEGER - fromBlock"
| "original_priority (TRACE_FILTER src fromBlock toBlock) = MAX_SAFE_INTEGER - fromBlock"

text \<open>The tasks that such a run takes, in the order it takes them.\<close>

fun tasks_in_order :: "env list \<Rightarrow> service \<Rightarrow> task list" where
  "tasks_in_order [] st = []"
| "tasks_in_order (e # es) st =
     (case next_position (queued (task_queue st)) of
        None \<Rightarrow> []
      | Some i \<Rightarrow>
          fst (queued (task_queue st) ! i) #
          (case run_task i e st of None \<Rightarrow> [] | Some st1 \<Rightarrow> tasks_in_order es st1))"

text \<open>The ranges of the FACTORY_LOG_FILTER tasks among the tasks given to \<open>addTask\<close>.\<close>

fun factory_log_filter_ranges :: "(task \<times> int) list \<Rightarrow> interval list" where
  "factory_log_filter_ranges [] = []"
| "factory_log_filter_ranges ((FACTORY_LOG_FILTER src fromBlock toBlock, p) # ts) =
     (fromBlock, toBlock) # factory_log_filter_ranges ts"
| "factory_log_filter_ranges (t # ts) = factory_log_filter_ranges ts"

subsection \<open>Example services\<close>

text \<open>An answer of the network with no log, no block in the store and no failure.\<close>

definition quiet :: env where
  "quiet = \<lparr>eth_getLogs = Some [], getBlock = (\<lambda>n. False), eth_getBlockByNumber = True,
            throwing_callback = None\<rparr>"

text \<open>
  A function-call source on blocks 0 to 10, nothing cached, finalized block 10.
\<close>

definition trace_source :: source where
  "trace_source =
     \<lparr>source_id = ''t'', source_startBlock = 0, source_endBlock = Some 10,
      maxBlockRange = None, criteria = TraceFilterCriteria [] [''0xc''] False\<rparr>"

definition empty_store :: store_intervals where
  "empty_store =
     \<lparr>getLogFilterIntervals = (\<lambda>c. []), getFactoryLogFilterIntervals = (\<lambda>c. []),
      getBlockFilterIntervals = (\<lambda>c. []), getTraceFilterIntervals = (\<lambda>c. [])\<rparr>"

definition trace_service :: service where
  "trace_service = service_setup empty_store 10 10 [trace_source] (new_service 100)"

text \<open>A log source on blocks 0 to 10 that the store has cached whole.\<close>

definition cached_source :: source where
  "cached_source =
     \<lparr>source_id = ''c'', source_startBlock = 0, source_endBlock = Some 10,
      maxBlockRange = None, criteria = LogFilterCriteria [''0xa''] [] False\<rparr>"

definition cached_store :: store_intervals where
  "cached_store = empty_store\<lparr>getLogFilterIntervals := (\<lambda>c. [(0, 10)])\<rparr>"

definition cached_service :: service where
  "cached_service = service_setup cached_store 10 10 [cached_source] (new_service 100)"

text \<open>
  A factory and a log source on blocks 0 to 2 (the finalized block), chunks of 2 blocks.
  The store has the factory's child addresses for block 1 only (the log filter of the
  factory event was synced there before), none of the factory's logs, and the log
  source's logs for blocks 0 and 1.
\<close>

definition factory_source :: source where
  "factory_source =
     \<lparr>source_id = ''f'', source_startBlock = 0, source_endBlock = Some 1,
      maxBlockRange = None, criteria = FactoryCriteria ''0xf'' ''0xe'' ''topic1'' [] False\<rparr>"

definition log_source :: source where
  "log_source =
     \<lparr>source_id = ''z'', source_startBlock = 0, source_endBlock = None,
      maxBlockRange = None, criteria = LogFilterCriteria [''0xa''] [] False\<rparr>"

definition partial_store :: store_intervals where
  "partial_store =
     empty_store\<lparr>getLogFilterIntervals :=
       (\<lambda>c. if c = LogFilterCriteria [''0xf''] [''0xe''] False then [(1, 1)]
            else if c = LogFilterCriteria [''0xa''] [] False then [(0, 1)]
            else [])\<rparr>"

definition factory_service :: service where
  "factory_service =
     service_setup partial_store 2 2 [factory_source, log_source] (new_service 2)"

text \<open>
  A service with one log filter synced up to block 4 of 10 and callbacks waiting at blocks 7
  and 3.
\<close>

definition pending_service :: service where
  "pending_service =
     (new_service 100)
       \<lparr>logFilterProgressTrackers := [(''z'', \<lparr>target = (0, 10), completed = [(0, 4)]\<rparr>)],
        blockCallbacks := [(7, [BlockFilterCallback log_source 5 7]),
                           (3, [BlockFilterCallback log_source 0 3])]\<rparr>"

text \<open>A BLOCK task with two callbacks, and an answer that makes the second one throw.\<close>

definition two_callbacks :: "callback list" where
  "two_callbacks =
     [LogFilterCallback log_source
        \<lparr>li_startBlock = 0, li_endBlock = 5, li_logs = [], li_transactionHashes = {}\<rparr>,
      BlockFilterCallback log_source 3 5]"

definition second_throws :: env where
  "second_throws = quiet\<lparr>throwing_callback := Some 1\<rparr>"

text \<open>Logs of blocks 7, 3 and 7 again, as \<open>eth_getLogs\<close> may return them for \<open>[0, 10]\<close>.\<close>

definition example_logs :: "rpc_log list" where
  "example_logs =
     [\<lparr>log_blockNumber = 7, log_transactionHash = ''0x71'', log_index = 0\<rparr>,
      \<lparr>log_blockNumber = 3, log_transactionHash = ''0x31'', log_index = 0\<rparr>,
      \<lparr>log_blockNumber = 7, log_transactionHash = ''0x72'', log_index = 1\<rparr>]"

section \<open>Properties\<close>

subsection \<open>Required blocks of a block filter\<close>

lemma enumerate_blocks_set:
  assumes "0 < interval"
  shows "\<exists>bs. enumerate_blocks b t interval = Some bs \<and>
           set bs = {n. b \<le> n \<and> n \<le> t \<and> (n - b) mod interval = 0} \<and>
           sorted bs \<and> distinct bs"
  using assms
proof (induction b t interval rule: enumerate_blocks.induct)
  case (1 b t i)
  show ?case
  proof (cases "b \<le> t")
    case False
    then show ?thesis by (simp add: enumerate_blocks.simps)
  next
    case True
    from "1.IH" [OF True] "1.prems" obtain bs where
      bs: "enumerate_blocks (b + i) t i = Some bs"
          "set bs = {n. b + i \<le> n \<and> n \<le> t \<and> (n - (b + i)) mod i = 0}"
          "sorted bs" "distinct bs"
      by auto
    have eq: "enumerate_blocks b t i = Some (b # bs)"
      using True "1.prems" bs(1) by (simp add: enumerate_blocks.simps)
    have set_eq: "insert b (set bs) = {n. b \<le> n \<and> n \<le> t \<and> (n - b) mod i = 0}"
    proof (rule set_eqI, rule iffI)
      fix n assume "n \<in> insert b (set bs)"
      then consider "n = b" | "n \<in> set bs" by auto
      then show "n \<in> {n. b \<le> n \<and> n \<le> t \<and> (n - b) mod i = 0}"
      proof cases
        case 1 then show ?thesis using True by simp
      next
        case 2
        then have n: "b + i \<le> n" "n \<le> t" "(n - (b + i)) mod i = 0"
          using bs(2) by auto
        from n(3) have "i dvd (n - (b + i))" by (simp only: mod_eq_0_iff_dvd)
        then have "i dvd (n - (b + i)) + i" by (rule dvd_add) (rule dvd_refl)
        moreover have "n - (b + i) + i = n - b" by simp
        ultimately have "i dvd (n - b)" by (simp only:)
        then have "(n - b) mod i = 0" by (simp only: mod_eq_0_iff_dvd)
        then show ?thesis using n "1.prems" by simp
      qed
    next
      fix n assume "n \<in> {n. b \<le> n \<and> n \<le> t \<and> (n - b) mod i = 0}"
      then have n: "b \<le> n" "n \<le> t" "(n - b) mod i = 0" by auto
      show "n \<in> insert b (set bs)"
      proof (cases "n = b")
        case True then show ?thesis by simp
      next
        case False
        from n(3) have dv: "i dvd (n - b)" by (simp add: mod_eq_0_iff_dvd)
        moreover have "0 < n - b" using n(1) False by simp
        ultimately have "i \<le> n - b" using zdvd_imp_le by blast
        moreover have "(n - (b + i)) mod i = 0"
        proof -
          have "i dvd (n - b) - i" using dv by (rule dvd_diff) (rule dvd_refl)
          moreover have "n - b - i = n - (b + i)" by simp
          ultimately have "i dvd (n - (b + i))" by (simp only:)
          then show ?thesis by (simp only: mod_eq_0_iff_dvd)
        qed
        ultimately show ?thesis using bs(2) n(2) by simp
      qed
    qed
    have "sorted (b # bs)" "distinct (b # bs)"
      using bs(2,3,4) "1.prems" by auto
    with eq set_eq show ?thesis by auto
  qed
qed

text \<open>
  When \<open>offset \<le> fromBlock\<close> and \<open>interval > 0\<close> the worker enumerates exactly the matching
  blocks of the range, and \<open>toBlock\<close>.
\<close>

lemma blockFilter_requiredBlocks_offset_le:
  assumes "0 < interval" and "offset \<le> fromBlock"
  shows "\<exists>bs. blockFilter_requiredBlocks interval offset fromBlock toBlock = Some bs \<and>
           set bs = {n. fromBlock \<le> n \<and> n \<le> toBlock \<and> block_matches interval offset n}
                    \<union> {toBlock}"
proof -
  define r where "r = (fromBlock - offset) mod interval"
  define off where "off = (if r = 0 then 0 else interval - r)"
  have d: "0 \<le> fromBlock - offset" using assms by simp
  have r_rem: "js_rem (fromBlock - offset) interval = r"
  proof (cases "fromBlock - offset = 0")
    case True then show ?thesis by (simp add: js_rem_def r_def)
  next
    case False
    with d have "0 < fromBlock - offset" by simp
    then show ?thesis using assms(1) by (simp add: js_rem_def r_def)
  qed
  have r_bounds: "0 \<le> r" "r < interval" using assms(1) by (simp_all add: r_def)
  have off_bounds: "0 \<le> off" "off < interval" using r_bounds by (auto simp: off_def)
  have off_dvd: "interval dvd (fromBlock + off - offset)"
  proof (cases "r = 0")
    case True then show ?thesis by (simp add: off_def r_def mod_eq_0_iff_dvd)
  next
    case False
    have "interval dvd (fromBlock - offset) - r"
      unfolding r_def by (rule dvd_minus_mod)
    then have "interval dvd ((fromBlock - offset) - r) + interval"
      by (rule dvd_add) (rule dvd_refl)
    moreover have "(fromBlock - offset) - r + interval = fromBlock + off - offset"
      using False by (simp add: off_def)
    ultimately show ?thesis by (simp only:)
  qed
  obtain bs where bs: "enumerate_blocks (fromBlock + off) toBlock interval = Some bs"
    "set bs = {n. fromBlock + off \<le> n \<and> n \<le> toBlock \<and> (n - (fromBlock + off)) mod interval = 0}"
    using enumerate_blocks_set [OF assms(1)] by blast
  have same: "(n - (fromBlock + off)) mod interval = 0 \<longleftrightarrow> (n - offset) mod interval = 0" for n
  proof -
    have "n - offset = (n - (fromBlock + off)) + (fromBlock + off - offset)" by simp
    then have "interval dvd (n - offset) \<longleftrightarrow> interval dvd (n - (fromBlock + off))"
      using off_dvd by (metis dvd_add_left_iff)
    then show ?thesis by (simp add: mod_eq_0_iff_dvd)
  qed
  have first: "fromBlock + off \<le> n"
    if n: "fromBlock \<le> n" "(n - offset) mod interval = 0" for n
  proof (rule ccontr)
    assume "\<not> fromBlock + off \<le> n"
    then have lt: "n < fromBlock + off" by simp
    have "interval dvd (n - offset)" using n(2) by (simp add: mod_eq_0_iff_dvd)
    with off_dvd have "interval dvd (fromBlock + off - offset) - (n - offset)"
      by (rule dvd_diff)
    moreover have "(fromBlock + off - offset) - (n - offset) = fromBlock + off - n" by simp
    ultimately have "interval dvd (fromBlock + off - n)" by (simp only:)
    moreover have "0 < fromBlock + off - n" using lt by simp
    ultimately have "interval \<le> fromBlock + off - n" using zdvd_imp_le by blast
    then show False using n(1) off_bounds by simp
  qed
  have set_bs: "set bs = {n. fromBlock \<le> n \<and> n \<le> toBlock \<and> block_matches interval offset n}"
    unfolding bs(2) block_matches_def using same first off_bounds by auto
  have "blockFilter_requiredBlocks interval offset fromBlock toBlock
          = Some (if toBlock \<in> set bs then bs else bs @ [toBlock])"
    using assms(1) bs(1) r_rem
    by (simp add: blockFilter_requiredBlocks_def Let_def off_def)
  then show ?thesis using set_bs by auto
qed

text \<open>
  Claim C8: for every BLOCK_FILTER task the required blocks are exactly the blocks \<open>n\<close> of
  \<open>[fromBlock, toBlock]\<close> with \<open>(n - offset) mod interval = 0\<close>, plus \<open>toBlock\<close>, also when
  \<open>offset > fromBlock\<close>. The code does not do that: for \<open>interval = 10\<close>, \<open>offset = 3\<close> and
  the range \<open>[0, 30]\<close> the remainder \<open>(0 - 3) % 10\<close> is \<open>-3\<close>, the first block enumerated is
  \<open>0 + (10 - (-3)) = 13\<close>, and the matching block \<open>3\<close> is skipped.
\<close>

theorem blockFilter_requiredBlocks_skips_matching_block:
  "blockFilter_requiredBlocks 10 3 0 30 = Some [13, 23, 30] \<and>
   block_matches 10 3 3 \<and> (0::int) \<le> 3 \<and> (3::int) \<le> 30 \<and>
   3 \<notin> set (the (blockFilter_requiredBlocks 10 3 0 30))"
  by code_simp

subsection \<open>Retries\<close>

lemma kill_shuts_down: "isShuttingDown (kill st)"
  by (simp add: kill_def)

text \<open>
  Claim C9: when a worker throws and the shutdown flag is not set, \<open>onError\<close> logs a warning
  and adds the failed task again at its original priority (\<open>MAX_SAFE_INTEGER\<close> minus
  \<open>fromBlock\<close>, or minus \<open>blockNumber\<close> for a BLOCK task); when the flag is set, as it is
  after \<open>kill\<close>, \<open>onError\<close> changes nothing: no task is added and nothing is logged.
\<close>

theorem onError_retries_unless_shutting_down:
  "(\<not> isShuttingDown st \<longrightarrow>
      queued (task_queue (onError t st)) = queued (task_queue st) @ [(t, original_priority t)] \<and>
      addTask_calls (task_queue (onError t st)) =
        addTask_calls (task_queue st) @ [(t, original_priority t)] \<and>
      logger (onError t st) = logger st @ [Warn_task_failed t]) \<and>
   (isShuttingDown st \<longrightarrow> onError t st = st) \<and>
   onError t (kill st) = kill st"
  by (cases t)
     (simp_all add: onError_def warn_and_retry_def enqueue_def addTask_def kill_def)

theorem onError_retries_unless_shutting_down_witness:
  "queued (task_queue (onError (BLOCK 5 []) (new_service 100))) =
     [(BLOCK 5 [], MAX_SAFE_INTEGER - 5)] \<and>
   logger (onError (BLOCK 5 []) (new_service 100)) = [Warn_task_failed (BLOCK 5 [])] \<and>
   isShuttingDown (kill (new_service 100)) \<and>
   onError (LOG_FILTER log_source 7 9) (kill (new_service 100)) = kill (new_service 100)"
  using onError_retries_unless_shutting_down [of "new_service 100" "BLOCK 5 []"]
    onError_retries_unless_shutting_down [of "kill (new_service 100)" "LOG_FILTER log_source 7 9"]
  by (simp add: new_service_def kill_def)

lemma run_callbacks_all:
  "run_callbacks None cbs st =
     Completed (st\<lparr>syncStore_inserts := syncStore_inserts st @ map callback_insert cbs\<rparr>)"
  by (induction cbs arbitrary: st) simp_all

lemma run_callbacks_throws:
  "k < length cbs \<Longrightarrow>
   run_callbacks (Some k) cbs st =
     Threw (st\<lparr>syncStore_inserts := syncStore_inserts st @ map callback_insert (take k cbs)\<rparr>)"
proof (induction cbs arbitrary: k st)
  case Nil
  then show ?case by simp
next
  case (Cons cb cbs)
  show ?case
  proof (cases k)
    case 0
    then show ?thesis by simp
  next
    case (Suc j)
    with Cons.prems have "j < length cbs" by simp
    from Cons.IH [OF this] Suc show ?thesis by simp
  qed
qed

text \<open>
  Claim C10: when a BLOCK task throws at its callback number \<open>k\<close>, the callbacks before it
  have done their inserts and nothing else of the state has changed; \<open>onError\<close> adds the
  task again with the same callbacks, and the retry calls every callback from the first
  one, so the inserts of the first \<open>k\<close> callbacks are done a second time.
\<close>

theorem block_task_retry_runs_every_callback_again:
  assumes "throwing_callback e = Some k" and "k < length callbacks"
    and "eth_getBlockByNumber e" and "\<not> isShuttingDown st"
    and "throwing_callback e' = None" and "eth_getBlockByNumber e'"
  shows "\<exists>st1 st2.
           worker (BLOCK n callbacks) e st = Threw st1 \<and>
           st1 = st\<lparr>syncStore_inserts :=
                     syncStore_inserts st @ map callback_insert (take k callbacks)\<rparr> \<and>
           queued (task_queue (onError (BLOCK n callbacks) st1)) =
             queued (task_queue st) @ [(BLOCK n callbacks, MAX_SAFE_INTEGER - n)] \<and>
           worker (BLOCK n callbacks) e' (onError (BLOCK n callbacks) st1) = Completed st2 \<and>
           syncStore_inserts st2 =
             syncStore_inserts st @ map callback_insert (take k callbacks)
               @ map callback_insert callbacks"
  using assms
  by (simp add: blockTaskWorker_def run_callbacks_throws run_callbacks_all onError_def
      warn_and_retry_def enqueue_def addTask_def)

theorem block_task_retry_runs_every_callback_again_witness:
  "\<exists>st1 st2.
     worker (BLOCK 5 two_callbacks) second_throws (new_service 100) = Threw st1 \<and>
     syncStore_inserts st1 = [callback_insert (two_callbacks ! 0)] \<and>
     queued (task_queue (onError (BLOCK 5 two_callbacks) st1)) =
       [(BLOCK 5 two_callbacks, MAX_SAFE_INTEGER - 5)] \<and>
     worker (BLOCK 5 two_callbacks) quiet (onError (BLOCK 5 two_callbacks) st1) = Completed st2 \<and>
     syncStore_inserts st2 =
       [callback_insert (two_callbacks ! 0), callback_insert (two_callbacks ! 0),
        callback_insert (two_callbacks ! 1)]"
  using block_task_retry_runs_every_callback_again
    [of second_throws 1 two_callbacks "new_service 100" quiet 5]
  by (simp add: second_throws_def quiet_def two_callbacks_def new_service_def)

subsection \<open>The TRACE_FILTER worker\<close>

lemma worker_TRACE_FILTER: "worker (TRACE_FILTER src a b) e st = Completed st"
  by simp

text \<open>
  Claim C4: for every TRACE_FILTER task the worker calls \<open>addCompletedInterval\<close> on the
  trace-filter tracker of the source, so its checkpoint advances. The code does not: the
  branch of the worker is empty. For the function-call source on blocks 0 to 10 the one
  task is \<open>TRACE_FILTER [0, 10]\<close>; after it has run the tracker is as it was, its
  checkpoint is still \<open>-1\<close>, where the call the claim asks for would have made it 10.
\<close>

theorem trace_filter_task_leaves_tracker:
  "map fst (queued (task_queue trace_service)) = [TRACE_FILTER trace_source 0 10] \<and>
   traceFilterProgressTrackers trace_service = [(''t'', \<lparr>target = (0, 10), completed = []\<rparr>)] \<and>
   map_option traceFilterProgressTrackers (run_task 0 quiet trace_service) =
     Some [(''t'', \<lparr>target = (0, 10), completed = []\<rparr>)] \<and>
   getCheckpoint \<lparr>target = (0, 10), completed = []\<rparr> = - 1 \<and>
   getCheckpoint (fst (addCompletedInterval \<lparr>target = (0, 10), completed = []\<rparr> (0, 10))) = 10"
  by code_simp

subsection \<open>The threshold of \<open>enqueueBlockTasks\<close>\<close>

text \<open>
  Claim C3, as stated: when no tracker has required work left, the threshold is the
  maximum checkpoint of the trackers. It is not: for the log source that the store has
  cached whole, the maximum checkpoint is 10 and the threshold is \<open>Infinity\<close>.
\<close>

theorem threshold_is_not_max_checkpoint:
  "list_all (\<lambda>t. getRequired t = []) (progressTrackers cached_service) \<and>
   Max (set (map getCheckpoint (progressTrackers cached_service))) = 10 \<and>
   blockTasksCanBeEnqueuedTo cached_service = PosInfinity \<and>
   blockTasksCanBeEnqueuedTo cached_service \<noteq>
     Num (Max (set (map getCheckpoint (progressTrackers cached_service))))"
  by code_simp

text \<open>
  Claim C3, amended: when no tracker has required work left, the threshold is \<open>Infinity\<close>
  (\<open>Math.min\<close> of no argument), which is above the checkpoint of every tracker, so every
  key of \<open>blockCallbacks\<close> passes the filter.
\<close>

theorem threshold_without_required_work:
  assumes "\<forall>t \<in> set (progressTrackers st). getRequired t = []"
  shows "blockTasksCanBeEnqueuedTo st = PosInfinity \<and>
         list_all (\<lambda>t. number_gt (blockTasksCanBeEnqueuedTo st) (Num (getCheckpoint t)))
           (progressTrackers st) \<and>
         newBlocks st = Object_keys (blockCallbacks st)"
proof -
  have "trackersWithRequiredWork st = []"
    using assms by (simp add: trackersWithRequiredWork_def filter_empty_conv)
  then show ?thesis
    by (simp add: blockTasksCanBeEnqueuedTo_def newBlocks_def list_all_iff)
qed

theorem threshold_without_required_work_witness:
  "list_all (\<lambda>t. getRequired t = []) (progressTrackers cached_service) \<and>
   blockTasksCanBeEnqueuedTo cached_service = PosInfinity \<and>
   progressTrackers cached_service = [\<lparr>target = (0, 10), completed = [(0, 10)]\<rparr>] \<and>
   number_gt (blockTasksCanBeEnqueuedTo cached_service) (Num 10)"
proof -
  have h: "list_all (\<lambda>t. getRequired t = []) (progressTrackers cached_service)"
    by code_simp
  then have h': "\<forall>t \<in> set (progressTrackers cached_service). getRequired t = []"
    by (simp add: list_all_iff)
  have p: "progressTrackers cached_service = [\<lparr>target = (0, 10), completed = [(0, 10)]\<rparr>]"
    by code_simp
  show ?thesis using threshold_without_required_work [OF h'] h p by simp
qed

lemma Math_min_Min: "xs \<noteq> [] \<Longrightarrow> Math_min xs = Num (Min (set xs))"
proof (cases xs)
  case Nil
  assume "xs \<noteq> []"
  with Nil show ?thesis by simp
next
  case (Cons a list)
  have "fold min list a = Min (set (a # list))" by (rule Min.set_eq_fold [symmetric])
  with Cons show ?thesis by simp
qed

lemma set_Object_keys: "set (Object_keys obj) = fst ` set obj"
  by (auto simp: Object_keys_def Let_def)

lemma distinct_Object_keys: "distinct (Object_keys obj)"
  by (auto simp: Object_keys_def Let_def)

lemma callbacks_at_delete:
  "m \<noteq> n \<Longrightarrow> callbacks_at (AList.delete n obj) m = callbacks_at obj m"
  by (simp add: callbacks_at_def delete_conv')

lemma fold_enqueue_block_task:
  "distinct ns \<Longrightarrow>
   addTask_calls (task_queue (fold enqueue_block_task ns st)) =
     addTask_calls (task_queue st) @
     map (\<lambda>n. (BLOCK n (callbacks_at (blockCallbacks st) n), MAX_SAFE_INTEGER - n)) ns"
proof (induction ns arbitrary: st)
  case Nil
  then show ?case by simp
next
  case (Cons n ns)
  let ?st = "enqueue_block_task n st"
  have calls: "addTask_calls (task_queue ?st) =
      addTask_calls (task_queue st) @
      [(BLOCK n (callbacks_at (blockCallbacks st) n), MAX_SAFE_INTEGER - n)]"
    by (simp add: enqueue_block_task_def enqueue_def addTask_def)
  have cbs: "blockCallbacks ?st = AList.delete n (blockCallbacks st)"
    by (simp add: enqueue_block_task_def enqueue_def)
  have same: "map (\<lambda>m. (BLOCK m (callbacks_at (blockCallbacks ?st) m), MAX_SAFE_INTEGER - m)) ns =
      map (\<lambda>m. (BLOCK m (callbacks_at (blockCallbacks st) m), MAX_SAFE_INTEGER - m)) ns"
  proof (rule map_cong [OF refl])
    fix m assume "m \<in> set ns"
    with Cons.prems have "m \<noteq> n" by auto
    then show "(BLOCK m (callbacks_at (blockCallbacks ?st) m), MAX_SAFE_INTEGER - m) =
      (BLOCK m (callbacks_at (blockCallbacks st) m), MAX_SAFE_INTEGER - m)"
      by (simp add: cbs callbacks_at_delete)
  qed
  from Cons.prems have "distinct ns" by simp
  from Cons.IH [OF this, of ?st] calls same show ?case by simp
qed

lemma block_numbers_append: "block_numbers (xs @ ys) = block_numbers xs @ block_numbers ys"
  by (induction xs rule: block_numbers.induct) simp_all

lemma block_numbers_BLOCK: "block_numbers (map (\<lambda>n. (BLOCK n (f n), g n)) ns) = ns"
  by (induction ns) simp_all

text \<open>
  Claim C2: when \<open>enqueueBlockTasks\<close> runs and some tracker has required work, the threshold
  is the minimum of the checkpoints of the trackers with required work
  (\<open>trackersWithRequiredWork\<close> filters the others out); the tasks it adds are BLOCK tasks,
  one for each key of \<open>blockCallbacks\<close> that is at most the threshold when the threshold
  is above \<open>blockTasksEnqueuedCheckpoint\<close>, and none otherwise.
\<close>

theorem enqueueBlockTasks_threshold:
  assumes "\<exists>t \<in> set (progressTrackers st). getRequired t \<noteq> []"
  shows "\<exists>thr new.
     thr = Min (getCheckpoint ` {t \<in> set (progressTrackers st). getRequired t \<noteq> []}) \<and>
     blockTasksCanBeEnqueuedTo st = Num thr \<and>
     addTask_calls (task_queue (enqueueBlockTasks st)) = addTask_calls (task_queue st) @ new \<and>
     list_all (\<lambda>(t, p). \<exists>n. t = BLOCK n (callbacks_at (blockCallbacks st) n) \<and>
                           p = MAX_SAFE_INTEGER - n) new \<and>
     distinct (block_numbers new) \<and>
     set (block_numbers new) =
       (if number_gt (Num thr) (blockTasksEnqueuedCheckpoint st)
        then {n \<in> fst ` set (blockCallbacks st). n \<le> thr} else {})"
proof -
  define thr where
    "thr = Min (getCheckpoint ` {t \<in> set (progressTrackers st). getRequired t \<noteq> []})"
  have ne: "trackersWithRequiredWork st \<noteq> []"
    using assms by (simp add: trackersWithRequiredWork_def filter_empty_conv)
  have "set (map getCheckpoint (trackersWithRequiredWork st)) =
      getCheckpoint ` {t \<in> set (progressTrackers st). getRequired t \<noteq> []}"
    by (simp add: trackersWithRequiredWork_def)
  then have thr: "blockTasksCanBeEnqueuedTo st = Num thr"
    using ne by (simp add: blockTasksCanBeEnqueuedTo_def Math_min_Min thr_def)
  have nb_set: "set (newBlocks st) = {n \<in> fst ` set (blockCallbacks st). n \<le> thr}"
    by (auto simp: newBlocks_def thr set_Object_keys)
  have nb_dist: "distinct (newBlocks st)"
    by (simp add: newBlocks_def distinct_Object_keys)
  show ?thesis
  proof (cases "number_gt (Num thr) (blockTasksEnqueuedCheckpoint st)")
    case True
    let ?new = "map (\<lambda>n. (BLOCK n (callbacks_at (blockCallbacks st) n), MAX_SAFE_INTEGER - n))
                  (newBlocks st)"
    have "addTask_calls (task_queue (enqueueBlockTasks st)) = addTask_calls (task_queue st) @ ?new"
      using True thr fold_enqueue_block_task [OF nb_dist]
      by (simp add: enqueueBlockTasks_def Let_def)
    moreover have "list_all (\<lambda>(t, p). \<exists>n. t = BLOCK n (callbacks_at (blockCallbacks st) n) \<and>
                           p = MAX_SAFE_INTEGER - n) ?new"
      by (simp add: list_all_iff)
    moreover have "block_numbers ?new = newBlocks st" by (rule block_numbers_BLOCK)
    ultimately show ?thesis using thr nb_set nb_dist True thr_def by auto
  next
    case False
    then have "enqueueBlockTasks st = st" using thr by (simp add: enqueueBlockTasks_def)
    then show ?thesis using thr False thr_def by auto
  qed
qed

theorem enqueueBlockTasks_threshold_witness:
  "list_ex (\<lambda>t. getRequired t \<noteq> []) (progressTrackers pending_service) \<and>
   (\<exists>thr new. thr = 4 \<and> blockTasksCanBeEnqueuedTo pending_service = Num thr \<and>
      addTask_calls (task_queue (enqueueBlockTasks pending_service)) = new \<and>
      set (block_numbers new) = {3})"
proof -
  have h: "list_ex (\<lambda>t. getRequired t \<noteq> []) (progressTrackers pending_service)" by code_simp
  then have h': "\<exists>t \<in> set (progressTrackers pending_service). getRequired t \<noteq> []"
    by (simp add: list_ex_iff)
  have "progressTrackers pending_service = [\<lparr>target = (0, 10), completed = [(0, 4)]\<rparr>]"
    by (simp add: pending_service_def new_service_def progressTrackers_def)
  moreover have "getRequired \<lparr>target = (0, 10), completed = [(0, 4)]\<rparr> \<noteq> []" by code_simp
  moreover have "getCheckpoint \<lparr>target = (0, 10), completed = [(0, 4)]\<rparr> = 4" by code_simp
  ultimately have m:
    "Min (getCheckpoint ` {t \<in> set (progressTrackers pending_service). getRequired t \<noteq> []}) = 4"
    by simp
  have c: "blockTasksEnqueuedCheckpoint pending_service = Num 0"
    "addTask_calls (task_queue pending_service) = []"
    "fst ` set (blockCallbacks pending_service) = {7, 3}"
    by (simp_all add: pending_service_def new_service_def)
  from enqueueBlockTasks_threshold [OF h'] obtain thr new where
    "thr = 4" "blockTasksCanBeEnqueuedTo pending_service = Num thr"
    "addTask_calls (task_queue (enqueueBlockTasks pending_service)) = new"
    "set (block_numbers new) = {n \<in> {7, 3}. n \<le> 4}"
    unfolding m c by auto
  moreover have "{n \<in> {7, 3}. n \<le> (4::int)} = {3}" by auto
  ultimately show ?thesis using h by auto
qed

subsection \<open>The interval algebra\<close>

lemma covered_Nil [simp]: "covered [] = {}"
  by (simp add: covered_def)

lemma covered_Cons [simp]: "covered ((a, b) # A) = {a..b} \<union> covered A"
  by (simp add: covered_def)

lemma covered_append [simp]: "covered (A @ B) = covered A \<union> covered B"
  by (simp add: covered_def)

lemma set_interval_blocks: "set (interval_blocks A) = covered A"
  by (induction A) (auto simp: interval_blocks_def)

lemma runs_ordered: "(a, b) \<in> set (runs xs) \<Longrightarrow> a \<le> b"
proof (induction xs arbitrary: a b)
  case Nil
  then show ?case by simp
next
  case (Cons x xs)
  show ?case
  proof (cases "runs xs")
    case Nil
    with Cons.prems show ?thesis by simp
  next
    case (Cons p rest)
    obtain c d where p: "p = (c, d)" by (cases p)
    have cd: "c \<le> d" using Cons.IH [of c d] Cons p by simp
    have rest: "(a, b) \<in> set rest \<Longrightarrow> a \<le> b" using Cons.IH [of a b] Cons by simp
    from Cons.prems Cons p cd rest show ?thesis by (auto split: if_splits)
  qed
qed

lemma covered_runs: "covered (runs xs) = set xs"
proof (induction xs)
  case Nil
  then show ?case by simp
next
  case (Cons x xs)
  show ?case
  proof (cases "runs xs")
    case Nil
    with Cons.IH show ?thesis by simp
  next
    case (Cons p rest)
    obtain c d where p: "p = (c, d)" by (cases p)
    have "c \<le> d" using runs_ordered [of c d xs] Cons p by simp
    then have "c = x + 1 \<Longrightarrow> {x..d} = insert x {c..d}" by auto
    with Cons.IH Cons p show ?thesis by auto
  qed
qed

lemma covered_canonical: "covered (canonical xs) = set xs"
  by (simp add: canonical_def covered_runs)

lemma covered_intervalDifference:
  "covered (intervalDifference A B) = covered A - covered B"
  by (auto simp: intervalDifference_def covered_canonical set_interval_blocks)

lemma covered_chunk_interval:
  "0 < m \<Longrightarrow> covered (chunk_interval a b m) = {a..b}"
proof (induction a b m rule: chunk_interval.induct)
  case (1 a b m)
  show ?case
  proof (cases "a \<le> b")
    case False
    then show ?thesis by (simp add: chunk_interval.simps)
  next
    case True
    let ?t = "min (a + m - 1) b"
    have ih: "covered (chunk_interval (?t + 1) b m) = {?t + 1..b}"
      using "1.IH" [of ?t] True "1.prems" by simp
    have "chunk_interval a b m = (a, ?t) # chunk_interval (?t + 1) b m"
      using True "1.prems" by (subst chunk_interval.simps) (simp add: Let_def)
    moreover have "{a..?t} \<union> {?t + 1..b} = {a..b}" using True "1.prems" by auto
    ultimately show ?thesis using ih by simp
  qed
qed

lemma chunk_interval_size:
  "(f, t) \<in> set (chunk_interval a b m) \<Longrightarrow> f \<le> t \<and> t - f + 1 \<le> m"
proof (induction a b m arbitrary: f t rule: chunk_interval.induct)
  case (1 a b m)
  show ?case
  proof (cases "a \<le> b \<and> 0 < m")
    case False
    with "1.prems" show ?thesis by (simp add: chunk_interval.simps)
  next
    case True
    let ?t = "min (a + m - 1) b"
    have "chunk_interval a b m = (a, ?t) # chunk_interval (?t + 1) b m"
      using True by (subst chunk_interval.simps) (simp add: Let_def)
    with "1.prems" consider "f = a \<and> t = ?t" | "(f, t) \<in> set (chunk_interval (?t + 1) b m)"
      by auto
    then show ?thesis
    proof cases
      case 1
      with True show ?thesis by auto
    next
      case 2
      from "1.IH" [OF True refl 2] show ?thesis .
    qed
  qed
qed

lemma covered_getChunks: "0 < m \<Longrightarrow> covered (getChunks A m) = covered A"
  by (induction A) (auto simp: getChunks_def covered_chunk_interval)

lemma getChunks_size:
  "(f, t) \<in> set (getChunks A m) \<Longrightarrow> f \<le> t \<and> t - f + 1 \<le> m"
  by (auto simp: getChunks_def dest: chunk_interval_size)

lemma add_tasks_calls:
  "addTask_calls (task_queue (add_tasks kind chunks st)) =
     addTask_calls (task_queue st) @
     map (\<lambda>(fromBlock, toBlock). (kind fromBlock toBlock, MAX_SAFE_INTEGER - fromBlock)) chunks"
  unfolding add_tasks_def
  by (induction chunks arbitrary: st) (auto simp: enqueue_def addTask_def)

lemma factory_log_filter_ranges_append:
  "factory_log_filter_ranges (xs @ ys) = factory_log_filter_ranges xs @ factory_log_filter_ranges ys"
  by (induction xs rule: factory_log_filter_ranges.induct) simp_all

lemma factory_log_filter_ranges_log:
  "factory_log_filter_ranges
     (map (\<lambda>(f, t). (FACTORY_LOG_FILTER src f t, g f)) chunks) = chunks"
  by (induction chunks) auto

lemma factory_log_filter_ranges_child:
  "factory_log_filter_ranges
     (map (\<lambda>(f, t). (FACTORY_CHILD_ADDRESS src f t, g f)) chunks) = []"
  by (induction chunks) auto

subsection \<open>Factory sources at setup\<close>

text \<open>
  Claim C5: for a factory source that needs historical sync, the FACTORY_LOG_FILTER tasks
  that setup adds are exactly the chunks, by the source's \<open>maxBlockRange\<close> (or the
  network's default), of the difference of the required factory-log intervals and the
  required child-address intervals, each at priority \<open>MAX_SAFE_INTEGER - fromBlock\<close>;
  with a positive chunk size they cover that difference and no block that still needs
  child-address discovery.
\<close>

theorem setup_factory_log_filter_tasks:
  assumes "criteria src = FactoryCriteria a e l ts r"
    and "source_startBlock src \<le> finalizedBlockNumber"
  shows "let tgt = (source_startBlock src,
                    case source_endBlock src of None \<Rightarrow> finalizedBlockNumber
                    | Some b \<Rightarrow> min b finalizedBlockNumber);
             requiredChild = getRequired
               \<lparr>target = tgt,
                completed = getLogFilterIntervals store (LogFilterCriteria [a] [e] False)\<rparr>;
             requiredLog = getRequired
               \<lparr>target = tgt, completed = getFactoryLogFilterIntervals store (criteria src)\<rparr>;
             chunks = getChunks (intervalDifference requiredLog requiredChild) (maxChunkSize src st);
             st' = setup_source store latestBlockNumber finalizedBlockNumber src st
         in addTask_calls (task_queue st') =
              addTask_calls (task_queue st) @
              map (\<lambda>(f, t). (FACTORY_CHILD_ADDRESS src f t, MAX_SAFE_INTEGER - f))
                (getChunks requiredChild (maxChunkSize src st)) @
              map (\<lambda>(f, t). (FACTORY_LOG_FILTER src f t, MAX_SAFE_INTEGER - f)) chunks \<and>
            factory_log_filter_ranges (addTask_calls (task_queue st')) =
              factory_log_filter_ranges (addTask_calls (task_queue st)) @ chunks \<and>
            (0 < maxChunkSize src st \<longrightarrow>
               covered chunks = covered requiredLog - covered requiredChild \<and>
               covered chunks \<inter> covered requiredChild = {})"
proof -
  have "isHistoricalSyncRequired
          (validateHistoricalBlockRange (source_startBlock src) (source_endBlock src)
             finalizedBlockNumber latestBlockNumber)"
    using assms(2) by (simp add: validateHistoricalBlockRange_def)
  then show ?thesis
    using assms(1)
    by (auto simp: setup_source_def Let_def validateHistoricalBlockRange_def add_tasks_calls
        factory_log_filter_ranges_append factory_log_filter_ranges_log
        factory_log_filter_ranges_child covered_getChunks covered_intervalDifference)
qed


theorem setup_factory_log_filter_tasks_witness:
  "source_startBlock factory_source \<le> 2 \<and>
   factory_log_filter_ranges
     (addTask_calls (task_queue (setup_source partial_store 2 2 factory_source (new_service 2))))
     = [(1, 1)] \<and>
   getRequired \<lparr>target = (0, 1), completed = [(1, 1)]\<rparr> = [(0, 0)]"
proof -
  have c: "criteria factory_source = FactoryCriteria ''0xf'' ''0xe'' ''topic1'' [] False"
    by (simp add: factory_source_def)
  have s: "source_startBlock factory_source \<le> 2"
    by (simp add: factory_source_def)
  have ev: "getChunks (intervalDifference (getRequired \<lparr>target = (0, 1), completed = []\<rparr>)
              (getRequired \<lparr>target = (0, 1), completed = [(1, 1)]\<rparr>)) 2 = [(1, 1)]"
    "getRequired \<lparr>target = (0, 1), completed = [(1, 1)]\<rparr> = [(0, 0)]"
    "getChunks [(0, 0)] 2 = [(0, 0)]"
    by code_simp+
  have q: "addTask_calls (task_queue (new_service 2)) = []"
    "maxChunkSize factory_source (new_service 2) = 2"
    by (simp_all add: new_service_def maxChunkSize_def factory_source_def)
  have st: "getLogFilterIntervals partial_store (LogFilterCriteria [''0xf''] [''0xe''] False) = [(1, 1)]"
    "getFactoryLogFilterIntervals partial_store (FactoryCriteria ''0xf'' ''0xe'' ''topic1'' [] False) = []"
    "source_startBlock factory_source = 0" "source_endBlock factory_source = Some 1"
    by (simp_all add: partial_store_def empty_store_def factory_source_def)
  from setup_factory_log_filter_tasks [OF c s, of partial_store "new_service 2" 2]
  show ?thesis using s ev q st c
    by (simp add: Let_def)
qed

subsection \<open>\<open>buildLogIntervals\<close> tiles the range\<close>

lemma requiredIntervals_ends: "map li_endBlock (requiredIntervals prev bs logs) = bs"
  by (induction bs arbitrary: prev) simp_all

lemma requiredIntervals_length: "length (requiredIntervals prev bs logs) = length bs"
  by (induction bs arbitrary: prev) simp_all

lemma requiredIntervals_first:
  "bs \<noteq> [] \<Longrightarrow> li_startBlock (hd (requiredIntervals prev bs logs)) = prev"
  by (cases bs) simp_all

lemma requiredIntervals_next:
  "Suc i < length bs \<Longrightarrow>
   li_startBlock (requiredIntervals prev bs logs ! Suc i) =
     li_endBlock (requiredIntervals prev bs logs ! i) + 1"
proof (induction bs arbitrary: prev i)
  case Nil
  then show ?case by simp
next
  case (Cons b bs)
  show ?case
  proof (cases i)
    case 0
    with Cons.prems have "bs \<noteq> []" by auto
    then have "li_startBlock (requiredIntervals (b + 1) bs logs ! 0) = b + 1"
      using requiredIntervals_first [of bs "b + 1" logs]
      by (cases bs) simp_all
    with 0 show ?thesis by simp
  next
    case (Suc j)
    with Cons.prems have "Suc j < length bs" by simp
    from Cons.IH [OF this] Suc show ?thesis by simp
  qed
qed

lemma requiredIntervals_logs:
  "iv \<in> set (requiredIntervals prev bs logs) \<Longrightarrow>
   li_logs iv = logsByBlockNumber logs (li_endBlock iv) \<and>
   li_transactionHashes iv = txHashesByBlockNumber logs (li_endBlock iv)"
  by (induction bs arbitrary: prev) auto

lemma requiredIntervals_ordered:
  "sorted_wrt (<) bs \<Longrightarrow> \<forall>b \<in> set bs. prev \<le> b \<Longrightarrow>
   iv \<in> set (requiredIntervals prev bs logs) \<Longrightarrow> li_startBlock iv \<le> li_endBlock iv"
proof (induction bs arbitrary: prev)
  case Nil
  then show ?case by simp
next
  case (Cons b bs)
  from Cons.prems(3) consider "li_startBlock iv = prev \<and> li_endBlock iv = b"
    | "iv \<in> set (requiredIntervals (b + 1) bs logs)" by auto
  then show ?case
  proof cases
    case 1
    with Cons.prems(2) show ?thesis by simp
  next
    case 2
    have "sorted_wrt (<) bs" "\<forall>c \<in> set bs. b + 1 \<le> c" using Cons.prems(1) by auto
    from Cons.IH [OF this 2] show ?thesis .
  qed
qed

lemma requiredIntervals_covered:
  "bs \<noteq> [] \<Longrightarrow> sorted_wrt (<) bs \<Longrightarrow> \<forall>b \<in> set bs. prev \<le> b \<Longrightarrow>
   covered (map (\<lambda>iv. (li_startBlock iv, li_endBlock iv)) (requiredIntervals prev bs logs)) =
     {prev..last bs}"
proof (induction bs arbitrary: prev)
  case Nil
  then show ?case by simp
next
  case (Cons b bs)
  show ?case
  proof (cases "bs = []")
    case True
    then show ?thesis by simp
  next
    case False
    have "sorted_wrt (<) bs" "\<forall>c \<in> set bs. b + 1 \<le> c" using Cons.prems(2) by auto
    from Cons.IH [OF False this]
    have "covered (map (\<lambda>iv. (li_startBlock iv, li_endBlock iv))
            (requiredIntervals (b + 1) bs logs)) = {b + 1..last bs}" .
    moreover have "b + 1 \<le> last bs" using False \<open>\<forall>c \<in> set bs. b + 1 \<le> c\<close> by simp
    moreover have "prev \<le> b" using Cons.prems(3) by simp
    ultimately show ?thesis using False by auto
  qed
qed

lemma requiredBlocks_set:
  "set (requiredBlocks toBlock logs) = insert toBlock (log_blockNumber ` set logs)"
  by (auto simp: requiredBlocks_def Let_def)

lemma requiredBlocks_sorted:
  assumes "\<forall>l \<in> set logs. log_blockNumber l \<le> toBlock"
  shows "sorted_wrt (<) (requiredBlocks toBlock logs)"
proof -
  let ?blocks = "sort (remdups (map log_blockNumber logs))"
  have s: "sorted_wrt (<) ?blocks" by (simp add: strict_sorted_iff)
  show ?thesis
  proof (cases "toBlock \<in> set ?blocks")
    case True
    with s show ?thesis by (simp add: requiredBlocks_def Let_def)
  next
    case False
    then have "\<forall>b \<in> set ?blocks. b < toBlock" using assms by fastforce
    with s False show ?thesis by (simp add: requiredBlocks_def Let_def sorted_wrt_append)
  qed
qed

lemma sorted_le_last: "sorted xs \<Longrightarrow> x \<in> set xs \<Longrightarrow> x \<le> last xs" for x :: int
  by (induction xs) auto

lemma requiredBlocks_last:
  assumes "\<forall>l \<in> set logs. log_blockNumber l \<le> toBlock"
  shows "requiredBlocks toBlock logs \<noteq> [] \<and> last (requiredBlocks toBlock logs) = toBlock"
proof -
  let ?blocks = "sort (remdups (map log_blockNumber logs))"
  show ?thesis
  proof (cases "toBlock \<in> set ?blocks")
    case True
    then have ne: "?blocks \<noteq> []" by (metis empty_iff empty_set)
    have "toBlock \<le> last ?blocks" using True by (intro sorted_le_last) simp_all
    moreover have "last ?blocks \<in> set ?blocks" using ne by (rule last_in_set)
    then have "last ?blocks \<le> toBlock" using assms by auto
    ultimately show ?thesis using True ne by (simp add: requiredBlocks_def Let_def)
  next
    case False
    then show ?thesis by (simp add: requiredBlocks_def Let_def)
  qed
qed

text \<open>
  Claim C7: for \<open>fromBlock \<le> toBlock\<close> and logs whose block numbers lie in
  \<open>[fromBlock, toBlock]\<close>, the intervals of \<open>buildLogIntervals\<close> tile the range: the first
  starts at \<open>fromBlock\<close>, each next one starts one block after the end of the one before,
  the last ends at \<open>toBlock\<close> (with no logs and no transaction hashes when no log is at
  \<open>toBlock\<close>), and every interval ends at the block whose logs it carries (a block with
  a log, or \<open>toBlock\<close>). So the intervals cover \<open>[fromBlock, toBlock]\<close> and their ends are
  distinct.
\<close>

theorem buildLogIntervals_tiles:
  assumes "fromBlock \<le> toBlock"
    and "\<forall>l \<in> set logs. fromBlock \<le> log_blockNumber l \<and> log_blockNumber l \<le> toBlock"
  shows "let ivs = buildLogIntervals fromBlock toBlock logs in
     ivs \<noteq> [] \<and>
     li_startBlock (hd ivs) = fromBlock \<and>
     (\<forall>i. Suc i < length ivs \<longrightarrow> li_startBlock (ivs ! Suc i) = li_endBlock (ivs ! i) + 1) \<and>
     li_endBlock (last ivs) = toBlock \<and>
     (toBlock \<notin> log_blockNumber ` set logs \<longrightarrow>
        li_logs (last ivs) = [] \<and> li_transactionHashes (last ivs) = {}) \<and>
     (\<forall>iv \<in> set ivs.
        li_startBlock iv \<le> li_endBlock iv \<and>
        (li_endBlock iv \<in> log_blockNumber ` set logs \<or> li_endBlock iv = toBlock) \<and>
        li_logs iv = filter (\<lambda>l. log_blockNumber l = li_endBlock iv) logs \<and>
        li_transactionHashes iv =
          log_transactionHash ` {l \<in> set logs. log_blockNumber l = li_endBlock iv}) \<and>
     distinct (map li_endBlock ivs) \<and>
     covered (map (\<lambda>iv. (li_startBlock iv, li_endBlock iv)) ivs) = {fromBlock..toBlock}"
proof -
  let ?bs = "requiredBlocks toBlock logs"
  let ?ivs = "requiredIntervals fromBlock ?bs logs"
  have le: "\<forall>l \<in> set logs. log_blockNumber l \<le> toBlock" using assms(2) by simp
  have sorted: "sorted_wrt (<) ?bs" using le by (rule requiredBlocks_sorted)
  have ne: "?bs \<noteq> []" and last: "last ?bs = toBlock" using requiredBlocks_last [OF le] by simp_all
  have ge: "\<forall>b \<in> set ?bs. fromBlock \<le> b" using assms by (auto simp: requiredBlocks_set)
  have ends: "map li_endBlock ?ivs = ?bs" by (rule requiredIntervals_ends)
  have len: "length ?ivs = length ?bs" by (rule requiredIntervals_length)
  have ivs_ne: "?ivs \<noteq> []" using ne len by auto
  have 1: "li_startBlock (hd ?ivs) = fromBlock" using ne by (rule requiredIntervals_first)
  have 2: "\<forall>i. Suc i < length ?ivs \<longrightarrow>
             li_startBlock (?ivs ! Suc i) = li_endBlock (?ivs ! i) + 1"
    using requiredIntervals_next [of _ ?bs fromBlock logs] len by simp
  have 3: "li_endBlock (last ?ivs) = toBlock"
  proof -
    have "li_endBlock (last ?ivs) = last (map li_endBlock ?ivs)"
      using ivs_ne by (simp add: last_map)
    then show ?thesis using ends last by simp
  qed
  have in_set: "li_endBlock iv \<in> set ?bs" if "iv \<in> set ?ivs" for iv
  proof -
    from that have "li_endBlock iv \<in> set (map li_endBlock ?ivs)" by simp
    then show ?thesis using ends by simp
  qed
  have logs_of: "li_logs iv = filter (\<lambda>l. log_blockNumber l = li_endBlock iv) logs \<and>
      li_transactionHashes iv =
        log_transactionHash ` {l \<in> set logs. log_blockNumber l = li_endBlock iv}"
    if "iv \<in> set ?ivs" for iv
    using requiredIntervals_logs [OF that]
    by (auto simp: logsByBlockNumber_def txHashesByBlockNumber_def)
  have 4: "toBlock \<notin> log_blockNumber ` set logs \<longrightarrow>
        li_logs (last ?ivs) = [] \<and> li_transactionHashes (last ?ivs) = {}"
  proof
    assume no: "toBlock \<notin> log_blockNumber ` set logs"
    have "last ?ivs \<in> set ?ivs" using ivs_ne by (rule last_in_set)
    from logs_of [OF this] 3 no show
      "li_logs (last ?ivs) = [] \<and> li_transactionHashes (last ?ivs) = {}"
      by (auto simp: filter_empty_conv)
  qed
  have 5: "\<forall>iv \<in> set ?ivs.
        li_startBlock iv \<le> li_endBlock iv \<and>
        (li_endBlock iv \<in> log_blockNumber ` set logs \<or> li_endBlock iv = toBlock) \<and>
        li_logs iv = filter (\<lambda>l. log_blockNumber l = li_endBlock iv) logs \<and>
        li_transactionHashes iv =
          log_transactionHash ` {l \<in> set logs. log_blockNumber l = li_endBlock iv}"
  proof
    fix iv assume iv: "iv \<in> set ?ivs"
    have "li_startBlock iv \<le> li_endBlock iv"
      using requiredIntervals_ordered [OF sorted ge iv] .
    moreover have "li_endBlock iv \<in> log_blockNumber ` set logs \<or> li_endBlock iv = toBlock"
      using in_set [OF iv] by (auto simp: requiredBlocks_set)
    ultimately show "li_startBlock iv \<le> li_endBlock iv \<and>
        (li_endBlock iv \<in> log_blockNumber ` set logs \<or> li_endBlock iv = toBlock) \<and>
        li_logs iv = filter (\<lambda>l. log_blockNumber l = li_endBlock iv) logs \<and>
        li_transactionHashes iv =
          log_transactionHash ` {l \<in> set logs. log_blockNumber l = li_endBlock iv}"
      using logs_of [OF iv] by simp
  qed
  have 6: "distinct (map li_endBlock ?ivs)"
    using sorted ends by (simp add: strict_sorted_iff)
  have 7: "covered (map (\<lambda>iv. (li_startBlock iv, li_endBlock iv)) ?ivs) = {fromBlock..toBlock}"
    using requiredIntervals_covered [OF ne sorted ge] last by simp
  show ?thesis
    unfolding Let_def buildLogIntervals_def
    using ivs_ne 1 2 3 4 5 6 7 by blast
qed

theorem buildLogIntervals_tiles_witness:
  "(0::int) \<le> 10 \<and>
   list_all (\<lambda>l. 0 \<le> log_blockNumber l \<and> log_blockNumber l \<le> 10) example_logs \<and>
   map (\<lambda>iv. (li_startBlock iv, li_endBlock iv)) (buildLogIntervals 0 10 example_logs) =
     [(0, 3), (4, 7), (8, 10)] \<and>
   li_startBlock (hd (buildLogIntervals 0 10 example_logs)) = 0 \<and>
   li_endBlock (last (buildLogIntervals 0 10 example_logs)) = 10 \<and>
   li_logs (last (buildLogIntervals 0 10 example_logs)) = [] \<and>
   covered (map (\<lambda>iv. (li_startBlock iv, li_endBlock iv)) (buildLogIntervals 0 10 example_logs))
     = {0..10}"
proof -
  have h1: "(0::int) \<le> 10" by simp
  have h2: "\<forall>l \<in> set example_logs. 0 \<le> log_blockNumber l \<and> log_blockNumber l \<le> 10"
    by (simp add: example_logs_def)
  have h3: "10 \<notin> log_blockNumber ` set example_logs"
    by (simp add: example_logs_def)
  have ev: "map (\<lambda>iv. (li_startBlock iv, li_endBlock iv)) (buildLogIntervals 0 10 example_logs) =
     [(0, 3), (4, 7), (8, 10)]"
    by code_simp
  from buildLogIntervals_tiles [OF h1 h2] h3 ev h2 show ?thesis
    by (simp add: Let_def list_all_iff)
qed

subsection \<open>A run that enqueues a block twice\<close>

text \<open>
  The service \<open>factory_service\<close>: setup enqueues \<open>FACTORY_CHILD_ADDRESS [0, 0]\<close>,
  \<open>FACTORY_LOG_FILTER [1, 1]\<close> (block 1 has its child addresses and lacks its factory
  logs) and \<open>LOG_FILTER [2, 2]\<close>. The child-address task moves the child-address
  checkpoint from \<open>-1\<close> to 1 and so adds \<open>FACTORY_LOG_FILTER [0, 1]\<close>, which overlaps the
  task of setup on block 1. The tasks below run in priority order; no worker throws.
\<close>

lemma run_in_order_is_run:
  "run_in_order es st = Some st' \<Longrightarrow> \<exists>steps. map snd steps = es \<and> run steps st = Some st'"
proof (induction es arbitrary: st)
  case Nil
  then show ?case by simp
next
  case (Cons e es)
  from Cons.prems obtain i st1 where
    i: "next_position (queued (task_queue st)) = Some i"
    and st1: "run_task i e st = Some st1"
    and rest: "run_in_order es st1 = Some st'"
    by (auto split: option.splits)
  from Cons.IH [OF rest] obtain steps where "map snd steps = es" "run steps st1 = Some st'"
    by blast
  with st1 have "map snd ((i, e) # steps) = e # es \<and> run ((i, e) # steps) st = Some st'"
    by simp
  then show ?case by (rule exI [of _ "(i, e) # steps"])
qed

lemma factory_run_tasks:
  "map fst (queued (task_queue factory_service)) =
     [FACTORY_CHILD_ADDRESS factory_source 0 0, FACTORY_LOG_FILTER factory_source 1 1,
      LOG_FILTER log_source 2 2] \<and>
   tasks_in_order [quiet, quiet, quiet, quiet, quiet, quiet] factory_service =
     [FACTORY_CHILD_ADDRESS factory_source 0 0,
      FACTORY_LOG_FILTER factory_source 0 1,
      BLOCK 0 [FactoryChildAddressCallback factory_source
        \<lparr>li_startBlock = 0, li_endBlock = 0, li_logs = [], li_transactionHashes = {}\<rparr>],
      FACTORY_LOG_FILTER factory_source 1 1,
      BLOCK 1 [FactoryLogFilterCallback factory_source
        \<lparr>li_startBlock = 0, li_endBlock = 1, li_logs = [], li_transactionHashes = {}\<rparr>],
      LOG_FILTER log_source 2 2]"
  by code_simp

text \<open>
  Claim C1: in every run, a block number is in at most one BLOCK task given to the queue.
  The code does not ensure it: in the run above \<open>FACTORY_LOG_FILTER [0, 1]\<close> registers a
  callback at block 1 and \<open>enqueueBlockTasks\<close> enqueues blocks 0 and 1; then
  \<open>FACTORY_LOG_FILTER [1, 1]\<close> registers a callback at block 1 again, and when
  \<open>LOG_FILTER [2, 2]\<close> ends the threshold is \<open>Infinity\<close> and the filter, which has no lower
  bound, enqueues blocks 1 and 2. The BLOCK tasks added are for blocks 0, 1, 1, 2.
\<close>

theorem factory_run_enqueues_block_twice:
  "map_option (\<lambda>st. (block_numbers (addTask_calls (task_queue st)), logger st))
     (run_in_order [quiet, quiet, quiet, quiet, quiet, quiet] factory_service) =
     Some ([0, 1, 1, 2], []) \<and>
   \<not> distinct [0, 1, 1, 2 :: int]"
  by code_simp

text \<open>
  Within one call the block numbers are ascending when every key of \<open>blockCallbacks\<close> is
  an array index, as block numbers below \<open>2^32 - 1\<close> are.
\<close>

lemma newBlocks_ascending:
  assumes "\<forall>k \<in> fst ` set (blockCallbacks st). is_array_index k"
  shows "sorted_wrt (<) (newBlocks st)"
proof -
  let ?ks = "remdups (map fst (blockCallbacks st))"
  have "filter (\<lambda>k. \<not> is_array_index k) ?ks = []"
    using assms by (auto simp: filter_empty_conv)
  then have "Object_keys (blockCallbacks st) = sort (filter is_array_index ?ks)"
    by (simp add: Object_keys_def Let_def)
  moreover have "sorted_wrt (<) (sort (filter is_array_index ?ks))"
    by (simp add: strict_sorted_iff)
  ultimately show ?thesis
    by (simp add: newBlocks_def sorted_wrt_filter)
qed

lemma fold_enqueue_block_task_tracker:
  "blockProgressTracker (fold enqueue_block_task ns st) = blockProgressTracker st"
  by (induction ns arbitrary: st) (simp_all add: enqueue_block_task_def enqueue_def)

lemma enqueueBlockTasks_pendingBlocks:
  "pendingBlocks (blockProgressTracker (enqueueBlockTasks st)) =
     pendingBlocks (blockProgressTracker st) @
     (if number_gt (blockTasksCanBeEnqueuedTo st) (blockTasksEnqueuedCheckpoint st)
      then newBlocks st else [])"
  by (simp add: enqueueBlockTasks_def Let_def fold_enqueue_block_task_tracker addPendingBlocks_def)

text \<open>
  Claim C6: every call of \<open>addPendingBlocks\<close> passes block numbers in ascending order that
  are above every block number passed before. The code does not ensure it: in the same
  run the pending blocks are 0 and 1 after five tasks, and the call that the sixth task
  makes passes 1 and 2.
\<close>

theorem factory_run_breaks_addPendingBlocks_precondition:
  "map_option blockProgressTracker
     (run_in_order [quiet, quiet, quiet, quiet, quiet] factory_service) =
     Some \<lparr>pendingBlocks = [0, 1], completedBlocks = [0, 1]\<rparr> \<and>
   map_option (\<lambda>st. pendingBlocks (blockProgressTracker st))
     (run_in_order [quiet, quiet, quiet, quiet, quiet, quiet] factory_service) =
     Some ([0, 1] @ [1, 2]) \<and>
   \<not> addPendingBlocks_pre \<lparr>pendingBlocks = [0, 1], completedBlocks = [0, 1]\<rparr> [1, 2]"
  by code_simp

end
